theory Spec2Isabelle
  imports Complex_Main "HOL-Library.Sublist" "HOL-Library.AList"
begin

section \<open>Strings and the two regular expressions of translate.py\<close>

text \<open>
  A Python \<open>str\<close> is modelled as a \<open>string\<close>; one \<open>char\<close> stands for one code point
  (the code points below 256), so \<open>length\<close> is Python's \<open>len\<close>.

  \<open>TAG_REGEX = r"{.*?}"\<close>: an opening brace, as few characters other than a line feed as
  possible, a closing brace. \<open>tag_close\<close> is the lazy part after the opening brace: it
  stops at the first closing brace and fails on a line feed or at the end of the text.
\<close>

fun tag_close :: "string \<Rightarrow> (string \<times> string) option" where
  "tag_close [] = None"
| "tag_close (c # cs) =
     (if c = CHR ''}'' then Some ([c], cs)
      else if c = CHR 0x0A then None
      else map_option (\<lambda>(b, r). (c # b, r)) (tag_close cs))"

text \<open>
  \<open>re.search\<close>: the leftmost position where the pattern matches. The result is the text
  before the match, the match and the text after it.
\<close>

fun re_search_tag :: "string \<Rightarrow> (string \<times> string \<times> string) option" where
  "re_search_tag [] = None"
| "re_search_tag (c # cs) =
     (case (if c = CHR ''{'' then tag_close cs else None) of
        Some (b, r) \<Rightarrow> Some ([], c # b, r)
      | None \<Rightarrow> map_option (\<lambda>(p, m, r). (c # p, m, r)) (re_search_tag cs))"

text \<open>\<open>re.finditer(TAG_REGEX, text)\<close>: the non-overlapping matches, left to right.\<close>

function finditer_tags :: "string \<Rightarrow> string list" where
  "finditer_tags s =
     (case re_search_tag s of
        None \<Rightarrow> []
      | Some (p, m, r) \<Rightarrow> m # finditer_tags r)"
  by pat_completeness auto
termination
proof (relation "measure length")
  have len_close: "tag_close t = Some (b, r) \<Longrightarrow> length r < length t" for t b r
    by (induction t arbitrary: b r) (auto split: if_splits)
  have len_search: "re_search_tag t = Some (p, m, r) \<Longrightarrow> length r < length t" for t p m r
    by (induction t arbitrary: p m r) (auto split: if_splits option.splits dest!: len_close)
  fix s x p y m r
  assume "re_search_tag s = Some x" "(p, y) = x" "(m, r) = y"
  then show "(r, s) \<in> measure length"
    using len_search [of s p m r] by simp
qed simp

text \<open>\<open>re.sub(TAG_REGEX, "", text)\<close>: every match is deleted.\<close>

function re_sub_tags :: "string \<Rightarrow> string" where
  "re_sub_tags s =
     (case re_search_tag s of
        None \<Rightarrow> s
      | Some (p, m, r) \<Rightarrow> p @ re_sub_tags r)"
  by pat_completeness auto
termination
proof (relation "measure length")
  have len_close: "tag_close t = Some (b, r) \<Longrightarrow> length r < length t" for t b r
    by (induction t arbitrary: b r) (auto split: if_splits)
  have len_search: "re_search_tag t = Some (p, m, r) \<Longrightarrow> length r < length t" for t p m r
    by (induction t arbitrary: p m r) (auto split: if_splits option.splits dest!: len_close)
  fix s x p y m r
  assume "re_search_tag s = Some x" "(p, y) = x" "(m, r) = y"
  then show "(r, s) \<in> measure length"
    using len_search [of s p m r] by simp
qed simp

text \<open>
  The character class \<open>[\d\s()\[\].,_-]\<close>. On code points below 256, \<open>\d\<close> is the ten
  ASCII digits and \<open>\s\<close> is what \<open>str.isspace\<close> accepts: U+0009 to U+000D, U+001C to
  U+001F, the space, U+0085 and U+00A0.
\<close>

definition re_digit :: "char \<Rightarrow> bool" where
  "re_digit c \<longleftrightarrow> (48::nat) \<le> of_char c \<and> of_char c \<le> (57::nat)"

definition re_space :: "char \<Rightarrow> bool" where
  "re_space c \<longleftrightarrow>
     ((9::nat) \<le> of_char c \<and> of_char c \<le> (13::nat)) \<or>
     ((28::nat) \<le> of_char c \<and> of_char c \<le> (32::nat)) \<or>
     of_char c = (133::nat) \<or> of_char c = (160::nat)"

definition skip_class :: "char \<Rightarrow> bool" where
  "skip_class c \<longleftrightarrow>
     re_digit c \<or> re_space c \<or> c \<in> set ''()[].,_-''"

text \<open>
  \<open>re.sub(r"[\d\s()\[\].,_-]+", "", noVars)\<close>: the pattern matches a maximal run of class
  characters, and each run is deleted.
\<close>

function re_sub_class :: "string \<Rightarrow> string" where
  "re_sub_class [] = []"
| "re_sub_class (c # cs) =
     (if skip_class c then re_sub_class (dropWhile skip_class cs)
      else c # re_sub_class cs)"
  by pat_completeness auto
termination
  by (relation "measure length") (auto simp: le_imp_less_Suc length_dropWhile_le)

text \<open>\<open>text.replace(old, new, 1)\<close>: the first occurrence of \<open>old\<close>, if any, is replaced.\<close>

fun str_replace1 :: "string \<Rightarrow> string \<Rightarrow> string \<Rightarrow> string" where
  "str_replace1 [] old new = (if old = [] then new else [])"
| "str_replace1 (c # cs) old new =
     (if prefix old (c # cs) then new @ drop (length old) (c # cs)
      else c # str_replace1 cs old new)"

text \<open>The decimal rendering of a count in an f-string.\<close>

fun string_of_nat :: "nat \<Rightarrow> string" where
  "string_of_nat n =
     (if n < 10 then [char_of (48 + n)]
      else string_of_nat (n div 10) @ [char_of (48 + n mod 10)])"

definition marker :: "nat \<Rightarrow> string" where
  "marker i = ''(%'' @ string_of_nat i @ ''%)''"

section \<open>Tag handling\<close>

text \<open>
  \<open>links2tags\<close>: the iterator runs over the text as it was passed in; each match is
  appended to \<open>links\<close> and its first occurrence in the current text is replaced by the
  marker of the current count.
\<close>

fun links2tags_loop :: "string list \<Rightarrow> nat \<Rightarrow> string \<Rightarrow> string list \<Rightarrow> string \<times> string list" where
  "links2tags_loop [] count s links = (s, links)"
| "links2tags_loop (m # ms) count s links =
     links2tags_loop ms (count + 1) (str_replace1 s m (marker count)) (links @ [m])"

definition links2tags :: "string \<Rightarrow> string \<times> string list" where
  "links2tags s = links2tags_loop (finditer_tags s) 0 s []"

fun tags2links_loop :: "(nat \<times> string) list \<Rightarrow> string \<Rightarrow> string" where
  "tags2links_loop [] s = s"
| "tags2links_loop ((idx, link) # rest) s =
     tags2links_loop rest (str_replace1 s (marker idx) link)"

definition tags2links :: "string \<Rightarrow> string list \<Rightarrow> string" where
  "tags2links s links = tags2links_loop (enumerate 0 links) s"

section \<open>The translator service\<close>

text \<open>
  The module's globals that a run only reads are the configuration. The translation
  provider is outside the program: \<open>provider cfg n s\<close> is what the \<open>n\<close>-th call of the run
  does when it is sent \<open>s\<close>: how long it takes, and the translated text or \<open>None\<close> when
  it raises.
\<close>

record config =
  maxRuntime :: int
  startTime :: rat
  disableCacheSave :: bool
  provider :: "nat \<Rightarrow> string \<Rightarrow> rat \<times> string option"

text \<open>
  What a run can observe of \<open>translate\<close>: its calls on the cache, on the provider and on
  \<open>time.sleep\<close>, and the failure report of an attempt.
\<close>

datatype event =
    CacheGet string
  | CacheSet string string
  | ProviderCall nat string
  | ProviderError nat
  | Sleep rat

text \<open>
  The fields of \<open>TranslatorService\<close>, the wall clock (\<open>time.time()\<close>, in seconds), the
  number of provider calls made so far and the observations. A dictionary is an
  association list in insertion order.
\<close>

record state =
  cacheData :: "(string \<times> string) list"
  cacheDirty :: bool
  charCount :: nat
  cachedCharCount :: nat
  now :: rat
  providerCalls :: nat
  trace :: "event list"

text \<open>
  The exceptions of the model: the \<open>Exception\<close> raised when the maximum runtime is
  exceeded, the \<open>TypeError\<close> and \<open>RuntimeError\<close> that the walker can run into, and a
  document that cannot be opened or parsed.
\<close>

datatype error =
    DeadlineExceeded
  | TypeError
  | RuntimeError
  | ReadError

definition MAX_RETRIES :: nat where
  "MAX_RETRIES = 5"

definition BASE_DELAY :: rat where
  "BASE_DELAY = 1"

definition cacheSet :: "config \<Rightarrow> string \<Rightarrow> string \<Rightarrow> state \<Rightarrow> state" where
  "cacheSet cfg key v st =
     (if disableCacheSave cfg then st
      else st\<lparr>cacheData := AList.update key v (cacheData st),
              cacheDirty := True,
              trace := trace st @ [CacheSet key v]\<rparr>)"

definition cacheGet :: "string \<Rightarrow> state \<Rightarrow> string option \<times> state" where
  "cacheGet key st = (map_of (cacheData st) key, st\<lparr>trace := trace st @ [CacheGet key]\<rparr>)"

definition sleep :: "rat \<Rightarrow> state \<Rightarrow> state" where
  "sleep d st = st\<lparr>now := now st + d, trace := trace st @ [Sleep d]\<rparr>"

definition call_provider :: "config \<Rightarrow> nat \<Rightarrow> string \<Rightarrow> state \<Rightarrow> string option \<times> state" where
  "call_provider cfg attempt s st =
     (let (took, r) = provider cfg (providerCalls st) s
      in (r, st\<lparr>now := now st + took,
                providerCalls := providerCalls st + 1,
                trace := trace st @ [ProviderCall attempt s]\<rparr>))"

text \<open>
  \<open>for attempt in range(MAX_RETRIES)\<close>: the delay before every attempt but the first,
  the call, \<open>break\<close> on success, the \<open>except\<close> block on failure. The result is the
  value of \<open>translated_text\<close>, or \<open>None\<close> when the name was never bound.
\<close>

function retry_loop :: "config \<Rightarrow> string \<Rightarrow> nat \<Rightarrow> state \<Rightarrow> string option \<times> state" where
  "retry_loop cfg translate_text attempt st =
     (if attempt < MAX_RETRIES then
        (let st1 = (if attempt > 0 then sleep (BASE_DELAY * 2 ^ (attempt - 1)) st else st)
         in case call_provider cfg attempt translate_text st1 of
              (Some translated_text, st2) \<Rightarrow> (Some translated_text, st2)
            | (None, st2) \<Rightarrow>
                retry_loop cfg translate_text (attempt + 1)
                  (st2\<lparr>trace := trace st2 @ [ProviderError attempt]\<rparr>))
      else (None, st))"
  by pat_completeness auto
termination
  by (relation "measure (\<lambda>(cfg, s, attempt, st). MAX_RETRIES - attempt)") auto

definition deadline_exceeded :: "config \<Rightarrow> state \<Rightarrow> bool" where
  "deadline_exceeded cfg st \<longleftrightarrow>
     maxRuntime cfg \<noteq> 0 \<and> now st - startTime cfg > of_int (maxRuntime cfg)"

definition translate :: "config \<Rightarrow> string \<Rightarrow> state \<Rightarrow> (error + string) \<times> state" where
  "translate cfg s st =
     (let noVars = re_sub_tags s in
      if length (re_sub_class noVars) < 5 then (Inr s, st)
      else
        case cacheGet s st of
          (Some cached_result, st0) \<Rightarrow>
            (Inr cached_result, st0\<lparr>cachedCharCount := cachedCharCount st0 + length s\<rparr>)
        | (None, st0) \<Rightarrow>
            if deadline_exceeded cfg st0 then (Inl DeadlineExceeded, st0)
            else
              (let st1 = st0\<lparr>charCount := charCount st0 + length s\<rparr>;
                   (translate_text, links) = links2tags s
               in case retry_loop cfg translate_text 0 st1 of
                    (None, st2) \<Rightarrow> (Inr s, st2)
                  | (Some translated_text, st2) \<Rightarrow>
                      (let restored = tags2links translated_text links
                       in (Inr restored, cacheSet cfg s restored st2))))"

section \<open>Stub providers and starting states\<close>

text \<open>
  Three provider stubs: one that always raises, one whose first four calls raise and
  whose later calls answer, and one that answers every call
  differently (the answer carries the number of the call).
\<close>

definition failing_provider :: "nat \<Rightarrow> string \<Rightarrow> rat \<times> string option" where
  "failing_provider n s = (0, None)"

definition flaky_provider :: "nat \<Rightarrow> string \<Rightarrow> rat \<times> string option" where
  "flaky_provider n s = (0, if n < 4 then None else Some (''it: '' @ s))"

definition counting_provider :: "nat \<Rightarrow> string \<Rightarrow> rat \<times> string option" where
  "counting_provider n s = (0, Some (string_of_nat n @ '': '' @ s))"

definition stub_config :: "bool \<Rightarrow> (nat \<Rightarrow> string \<Rightarrow> rat \<times> string option) \<Rightarrow> config" where
  "stub_config nocache p =
     \<lparr>maxRuntime = 0, startTime = 0, disableCacheSave = nocache, provider = p\<rparr>"

definition fresh_state :: state where
  "fresh_state =
     \<lparr>cacheData = [], cacheDirty = False, charCount = 0, cachedCharCount = 0,
      now = 0, providerCalls = 0, trace = []\<rparr>"

section \<open>Observations on a run\<close>

text \<open>
  What one provider attempt leaves in the observations: the delay before it (none before
  the first attempt, \<open>BASE_DELAY * 2 ^ (attempt - 1)\<close> before a later one), the call, and
  the failure report when it raised. \<open>retry_events t n exhausted\<close> is a run of \<open>n\<close>
  attempts in which every attempt but the last failed, and the last one too when
  \<open>exhausted\<close>.
\<close>

definition attempt_events :: "string \<Rightarrow> nat \<Rightarrow> bool \<Rightarrow> event list" where
  "attempt_events t a failed =
     (if a > 0 then [Sleep (BASE_DELAY * 2 ^ (a - 1))] else []) @ [ProviderCall a t] @
     (if failed then [ProviderError a] else [])"

definition retry_events :: "string \<Rightarrow> nat \<Rightarrow> bool \<Rightarrow> event list" where
  "retry_events t n exhausted =
     concat (map (\<lambda>i. attempt_events t i (exhausted \<or> i + 1 < n)) [0..<n])"

text \<open>The fields of the service that the retry loop never writes.\<close>

definition service_frame :: "state \<Rightarrow> state \<Rightarrow> bool" where
  "service_frame st st' \<longleftrightarrow>
     cacheData st' = cacheData st \<and> cacheDirty st' = cacheDirty st \<and>
     charCount st' = charCount st \<and> cachedCharCount st' = cachedCharCount st"

text \<open>The failure reports and the delays in a list of observations.\<close>

definition recorded_failures :: "event list \<Rightarrow> nat" where
  "recorded_failures tr = length (filter (\<lambda>e. case e of ProviderError a \<Rightarrow> True | _ \<Rightarrow> False) tr)"

definition delays_in :: "event list \<Rightarrow> rat list" where
  "delays_in tr = concat (map (\<lambda>e. case e of Sleep d \<Rightarrow> [d] | _ \<Rightarrow> []) tr)"

text \<open>
  The negation of the short-text test, stated with the characters that remain, and the
  state in which the retry loop starts after a cache miss.
\<close>

definition long_enough :: "string \<Rightarrow> bool" where
  "long_enough s \<longleftrightarrow> 5 \<le> length (filter (\<lambda>c. \<not> skip_class c) (re_sub_tags s))"

definition miss_state :: "string \<Rightarrow> state \<Rightarrow> state" where
  "miss_state s st = st\<lparr>trace := trace st @ [CacheGet s], charCount := charCount st + length s\<rparr>"

section \<open>Documents and the walker\<close>

text \<open>
  What \<open>json.load\<close> returns: \<open>None\<close>, a \<open>bool\<close>, a number, a \<open>str\<close>, a \<open>list\<close> or a
  \<open>dict\<close> with string keys, in insertion order. The walker never looks into a number.
\<close>

datatype json =
    JNull
  | JBool bool
  | JNum rat
  | JStr string
  | JList "json list"
  | JObj "(string \<times> json) list"

text \<open>
  The number of lists and mappings in a document. A translation replaces a string by a
  string, so it leaves this number as it is; the walker's recursion is measured with it.
\<close>

fun jsize :: "json \<Rightarrow> nat" and jsizes :: "json list \<Rightarrow> nat"
  and jsizes_fields :: "(string \<times> json) list \<Rightarrow> nat" where
  "jsize (JList xs) = Suc (jsizes xs)"
| "jsize (JObj kvs) = Suc (jsizes_fields kvs)"
| "jsize JNull = 0"
| "jsize (JBool b) = 0"
| "jsize (JNum n) = 0"
| "jsize (JStr s) = 0"
| "jsizes [] = 0"
| "jsizes (x # xs) = jsize x + jsizes xs"
| "jsizes_fields [] = 0"
| "jsizes_fields (kv # kvs) = jsize (snd kv) + jsizes_fields kvs"

text \<open>
  The walker mutates the document in place and \<open>translate\<close> may raise in the middle of
  it, so every function of the walker returns the error if one was raised, the document
  as the walk left it, and the state. A loop that assigns only at the index it is visiting,
  over a tree that has no sharing, is a recursion over the remaining elements.

  The branch for a mapping under the key \<open>other\<close>:
  \<^verbatim>\<open>for section, items in v.items():
    for idx, item in enumerate(items):
        data[k][section][idx] = translator.translate(item)\<close>
  \<open>translate\<close> raises \<open>TypeError\<close> on an item that is not a string (\<open>re.sub\<close> does).
\<close>

fun other_items :: "config \<Rightarrow> json list \<Rightarrow> state \<Rightarrow> error option \<times> json list \<times> state" where
  "other_items cfg [] st = (None, [], st)"
| "other_items cfg (JStr item # rest) st =
     (case translate cfg item st of
        (Inl e, st1) \<Rightarrow> (Some e, JStr item # rest, st1)
      | (Inr r, st1) \<Rightarrow>
          (case other_items cfg rest st1 of (e, rest', st2) \<Rightarrow> (e, JStr r # rest', st2)))"
| "other_items cfg (item # rest) st = (Some TypeError, item # rest, st)"

text \<open>
  \<open>items\<close> need not be a list. \<open>enumerate\<close> raises \<open>TypeError\<close> on \<open>None\<close>, a \<open>bool\<close>
  or a number. Over a non-empty string it yields the first character, which is translated
  (to itself), and the assignment into the string raises \<open>TypeError\<close>. Over a non-empty
  mapping it yields the first key, which is translated, the assignment adds the key \<open>0\<close>
  (written \<open>"0"\<close> by \<open>json.dump\<close>) and the iterator then raises \<open>RuntimeError\<close>, the
  mapping having changed size.
\<close>

fun other_section :: "config \<Rightarrow> json \<Rightarrow> state \<Rightarrow> error option \<times> json \<times> state" where
  "other_section cfg (JList items) st =
     (case other_items cfg items st of (e, items', st1) \<Rightarrow> (e, JList items', st1))"
| "other_section cfg (JStr []) st = (None, JStr [], st)"
| "other_section cfg (JStr (c # cs)) st =
     (case translate cfg [c] st of
        (Inl e, st1) \<Rightarrow> (Some e, JStr (c # cs), st1)
      | (Inr r, st1) \<Rightarrow> (Some TypeError, JStr (c # cs), st1))"
| "other_section cfg (JObj []) st = (None, JObj [], st)"
| "other_section cfg (JObj ((k, v) # kvs)) st =
     (case translate cfg k st of
        (Inl e, st1) \<Rightarrow> (Some e, JObj ((k, v) # kvs), st1)
      | (Inr r, st1) \<Rightarrow> (Some RuntimeError, JObj ((k, v) # kvs @ [(''0'', JStr r)]), st1))"
| "other_section cfg items st = (Some TypeError, items, st)"

fun other_sections ::
  "config \<Rightarrow> (string \<times> json) list \<Rightarrow> state \<Rightarrow> error option \<times> (string \<times> json) list \<times> state" where
  "other_sections cfg [] st = (None, [], st)"
| "other_sections cfg ((section, items) # rest) st =
     (case other_section cfg items st of
        (Some e, items', st1) \<Rightarrow> (Some e, (section, items') # rest, st1)
      | (None, items', st1) \<Rightarrow>
          (case other_sections cfg rest st1 of
             (e, rest', st2) \<Rightarrow> (e, (section, items') # rest', st2)))"

text \<open>
  The loop over an entry that is a list:
  \<^verbatim>\<open>for elidx, el in enumerate(entry):
    if type(el) is str and len(el) > 2:
        data[k][idx][elidx] = translator.translate(el)\<close>
\<close>

fun translate_nested :: "config \<Rightarrow> json list \<Rightarrow> state \<Rightarrow> error option \<times> json list \<times> state" where
  "translate_nested cfg [] st = (None, [], st)"
| "translate_nested cfg (JStr el # rest) st =
     (if length el > 2 then
        (case translate cfg el st of
           (Inl e, st1) \<Rightarrow> (Some e, JStr el # rest, st1)
         | (Inr r, st1) \<Rightarrow>
             (case translate_nested cfg rest st1 of (e, rest', st2) \<Rightarrow> (e, JStr r # rest', st2)))
      else
        (case translate_nested cfg rest st of (e, rest', st2) \<Rightarrow> (e, JStr el # rest', st2)))"
| "translate_nested cfg (el # rest) st =
     (case translate_nested cfg rest st of (e, rest', st2) \<Rightarrow> (e, el # rest', st2))"

definition SEQUENCE_FIELDS :: "string list" where
  "SEQUENCE_FIELDS =
     [''entries'', ''items'', ''rows'', ''headerEntries'', ''reasons'', ''other'', ''lifeTrinket'']"

text \<open>The test that makes the walker pass over \<open>items\<close>:
  \<open>"type" not in data or data["type"] != "list"\<close>.\<close>

definition items_gate :: "(string \<times> json) list \<Rightarrow> bool" where
  "items_gate data \<longleftrightarrow>
     map_of data ''type'' = None \<or> map_of data ''type'' \<noteq> Some (JStr ''list'')"

text \<open>
  \<open>translate_data\<close>. \<open>walk_elements\<close> is the loop over a list, \<open>walk_fields\<close> the loop over
  \<open>data.items()\<close> (with the fields already visited, as they are now, and the fields to
  come), \<open>translate_field\<close> the body of that loop for the field \<open>k, v\<close> of the mapping
  \<open>data\<close>, \<open>walk_entries\<close> the loop over a sequence field and \<open>translate_entry\<close> its body.
\<close>

function translate_data :: "config \<Rightarrow> json \<Rightarrow> state \<Rightarrow> error option \<times> json \<times> state"
  and walk_elements :: "config \<Rightarrow> json list \<Rightarrow> state \<Rightarrow> error option \<times> json list \<times> state"
  and walk_fields ::
    "config \<Rightarrow> (string \<times> json) list \<Rightarrow> (string \<times> json) list \<Rightarrow> state \<Rightarrow>
       error option \<times> (string \<times> json) list \<times> state"
  and translate_field ::
    "config \<Rightarrow> (string \<times> json) list \<Rightarrow> string \<Rightarrow> json \<Rightarrow> state \<Rightarrow> error option \<times> json \<times> state"
  and walk_entries :: "config \<Rightarrow> json list \<Rightarrow> state \<Rightarrow> error option \<times> json list \<times> state"
  and translate_entry :: "config \<Rightarrow> json \<Rightarrow> state \<Rightarrow> error option \<times> json \<times> state"
where
  "translate_data cfg (JList xs) st =
     (case walk_elements cfg xs st of (e, xs', st1) \<Rightarrow> (e, JList xs', st1))"
| "translate_data cfg (JObj kvs) st =
     (case walk_fields cfg [] kvs st of (e, kvs', st1) \<Rightarrow> (e, JObj kvs', st1))"
| "translate_data cfg JNull st = (None, JNull, st)"
| "translate_data cfg (JBool b) st = (None, JBool b, st)"
| "translate_data cfg (JNum n) st = (None, JNum n, st)"
| "translate_data cfg (JStr s) st = (None, JStr s, st)"
| "walk_elements cfg [] st = (None, [], st)"
| "walk_elements cfg (element # rest) st =
     (case translate_data cfg element st of
        (Some e, element', st1) \<Rightarrow> (Some e, element' # rest, st1)
      | (None, element', st1) \<Rightarrow>
          (case walk_elements cfg rest st1 of (e, rest', st2) \<Rightarrow> (e, element' # rest', st2)))"
| "walk_fields cfg seen [] st = (None, seen, st)"
| "walk_fields cfg seen ((k, v) # rest) st =
     (case translate_field cfg (seen @ (k, v) # rest) k v st of
        (Some e, v', st1) \<Rightarrow> (Some e, seen @ (k, v') # rest, st1)
      | (None, v', st1) \<Rightarrow> walk_fields cfg (seen @ [(k, v')]) rest st1)"
| "translate_field cfg data k v st =
     (case v of
        JStr s \<Rightarrow>
          if k = ''entry'' \<or> k = ''effect'' then
            (case translate cfg s st of
               (Inl e, st1) \<Rightarrow> (Some e, v, st1)
             | (Inr r, st1) \<Rightarrow> (None, JStr r, st1))
          else translate_data cfg v st
      | JObj sections \<Rightarrow>
          if k = ''other'' then
            (case other_sections cfg sections st of
               (e, sections', st1) \<Rightarrow> (e, JObj sections', st1))
          else translate_data cfg v st
      | JList entries \<Rightarrow>
          if k \<in> set SEQUENCE_FIELDS then
            if k = ''items'' \<and> items_gate data then (None, v, st)
            else
              (case walk_entries cfg entries st of
                 (e, entries', st1) \<Rightarrow> (e, JList entries', st1))
          else translate_data cfg v st
      | _ \<Rightarrow> translate_data cfg v st)"
| "walk_entries cfg [] st = (None, [], st)"
| "walk_entries cfg (entry # rest) st =
     (case translate_entry cfg entry st of
        (Some e, entry', st1) \<Rightarrow> (Some e, entry' # rest, st1)
      | (None, entry', st1) \<Rightarrow>
          (case walk_entries cfg rest st1 of (e, rest', st2) \<Rightarrow> (e, entry' # rest', st2)))"
| "translate_entry cfg entry st =
     (case entry of
        JList els \<Rightarrow>
          (case translate_nested cfg els st of
             (Some e, els', st1) \<Rightarrow> (Some e, JList els', st1)
           | (None, els', st1) \<Rightarrow> translate_data cfg (JList els') st1)
      | JStr s \<Rightarrow>
          (case translate cfg s st of
             (Inl e, st1) \<Rightarrow> (Some e, entry, st1)
           | (Inr r, st1) \<Rightarrow> (None, JStr r, st1))
      | _ \<Rightarrow> translate_data cfg entry st)"
  by pat_completeness auto
termination
proof -
  have nested: "jsizes els' = jsizes els" if "translate_nested cfg els st = (e, els', st')"
    for cfg els st e els' st'
    using that
    by (induction cfg els st arbitrary: e els' st' rule: translate_nested.induct)
       (auto split: prod.splits sum.splits if_splits)
  show ?thesis
    by (relation "inv_image (less_than <*lex*> less_than)
      (\<lambda>x. case x of
         Inl (Inl (cfg, d, st)) \<Rightarrow> (jsize d, 0)
       | Inl (Inr (Inl (cfg, xs, st))) \<Rightarrow> (jsizes xs, Suc (Suc (length xs)))
       | Inl (Inr (Inr (cfg, seen, kvs, st))) \<Rightarrow> (jsizes_fields kvs, Suc (Suc (length kvs)))
       | Inr (Inl (cfg, data, k, v, st)) \<Rightarrow> (jsize v, Suc 0)
       | Inr (Inr (Inl (cfg, xs, st))) \<Rightarrow> (jsizes xs, Suc (Suc (length xs)))
       | Inr (Inr (Inr (cfg, entry, st))) \<Rightarrow> (jsize entry, Suc 0))")
       (auto dest: nested nested [OF sym])
qed

section \<open>Cache files and the end of a file\<close>

text \<open>
  A cache file on disk holds a mapping from source text to translated text, or text that
  \<open>json.load\<close> rejects, or the beginning of a dump that failed. Saving a cache can fail
  when the temporary file is opened, while the mapping is dumped, or at the rename.
\<close>

datatype cache_file = StoredCache "(string \<times> string) list" | CorruptCache | PartialDump

datatype io_fault = NoFault | OpenFails | DumpFails | RenameFails

text \<open>
  What is outside the program when a cache is saved: what the file system does when the
  cache file of a given name is written.
\<close>

record environment =
  ioFault :: "string \<Rightarrow> io_fault"

text \<open>The console messages of \<open>__exit__\<close> and \<open>cacheSync\<close>.\<close>

datatype report =
    SavingCache string
  | SaveError string
  | SaveDisabled string

text \<open>
  The service when its scope is left (with the clock and the observations), the name of
  its cache file, the cache files on disk and the messages printed.
\<close>

record run =
  service :: state
  cacheFile :: string
  disk :: "string \<Rightarrow> cache_file option"
  reports :: "report list"

text \<open>\<open>open(temp_file, mode="w")\<close> with \<open>json.dump\<close>, and \<open>os.rename\<close>: whether the
  step succeeded, and the disk after it.\<close>

definition write_cache ::
  "io_fault \<Rightarrow> string \<Rightarrow> (string \<times> string) list \<Rightarrow> (string \<Rightarrow> cache_file option) \<Rightarrow>
     bool \<times> (string \<Rightarrow> cache_file option)" where
  "write_cache fault path content d =
     (if fault = OpenFails then (False, d)
      else if fault = DumpFails then (False, d(path \<mapsto> PartialDump))
      else (True, d(path \<mapsto> StoredCache content)))"

definition rename_file ::
  "io_fault \<Rightarrow> string \<Rightarrow> string \<Rightarrow> (string \<Rightarrow> cache_file option) \<Rightarrow>
     bool \<times> (string \<Rightarrow> cache_file option)" where
  "rename_file fault src dst d =
     (if fault = RenameFails then (False, d)
      else (True, (d(dst := d src))(src := None)))"

text \<open>\<open>cacheSync\<close>: nothing unless the cache is dirty; the \<open>except\<close> clause reports the
  failure of either step and the method returns normally.\<close>

definition cacheSync :: "environment \<Rightarrow> run \<Rightarrow> run" where
  "cacheSync env r =
     (if cacheDirty (service r) then
        (let r1 = r\<lparr>reports := reports r @ [SavingCache (cacheFile r)]\<rparr>;
             temp_file = cacheFile r @ ''.swp''
         in case write_cache (ioFault env (cacheFile r)) temp_file (cacheData (service r)) (disk r1) of
              (False, d1) \<Rightarrow>
                r1\<lparr>disk := d1, reports := reports r1 @ [SaveError (cacheFile r)]\<rparr>
            | (True, d1) \<Rightarrow>
                (case rename_file (ioFault env (cacheFile r)) temp_file (cacheFile r) d1 of
                   (False, d2) \<Rightarrow>
                     r1\<lparr>disk := d2, reports := reports r1 @ [SaveError (cacheFile r)]\<rparr>
                 | (True, d2) \<Rightarrow>
                     r1\<lparr>disk := d2, service := (service r1)\<lparr>cacheDirty := False\<rparr>\<rparr>))
      else r)"

text \<open>\<open>__exit__\<close>, which returns \<open>None\<close>: an exception of the body is not swallowed.\<close>

definition exit_service :: "config \<Rightarrow> environment \<Rightarrow> run \<Rightarrow> run" where
  "exit_service cfg env r =
     (if \<not> disableCacheSave cfg then cacheSync env r
      else r\<lparr>reports := reports r @ [SaveDisabled (cacheFile r)]\<rparr>)"


section \<open>The loops of the walker, as one loop\<close>

text \<open>
  \<open>for_each f xs st\<close> runs the body \<open>f\<close> over the elements of \<open>xs\<close> from left to
  right, handing the state on from one element to the next, puts each result in the place
  of its element and stops at the first error, leaving the later elements as they are.
  \<open>string_step\<close> is what the amended claim says of one sub-element of a nested list in
  the first pass: a string longer than two characters is replaced by its translation,
  anything else is left as it is.
\<close>

fun for_each ::
  "(json \<Rightarrow> state \<Rightarrow> error option \<times> json \<times> state) \<Rightarrow> json list \<Rightarrow> state \<Rightarrow>
     error option \<times> json list \<times> state" where
  "for_each f [] st = (None, [], st)"
| "for_each f (x # xs) st =
     (case f x st of
        (Some e, x', st1) \<Rightarrow> (Some e, x' # xs, st1)
      | (None, x', st1) \<Rightarrow>
          (case for_each f xs st1 of (e, xs', st2) \<Rightarrow> (e, x' # xs', st2)))"

definition string_step :: "config \<Rightarrow> json \<Rightarrow> state \<Rightarrow> error option \<times> json \<times> state" where
  "string_step cfg el st =
     (case el of
        JStr s \<Rightarrow>
          if 2 < length s then
            (case translate cfg s st of
               (Inl e, st1) \<Rightarrow> (Some e, el, st1)
             | (Inr r, st1) \<Rightarrow> (None, JStr r, st1))
          else (None, el, st)
      | _ \<Rightarrow> (None, el, st))"

section \<open>Stub environments and starting runs\<close>

definition stub_env :: "io_fault \<Rightarrow> environment" where
  "stub_env fault = \<lparr>ioFault = (\<lambda>file. fault)\<rparr>"

definition start_run :: "state \<Rightarrow> string \<Rightarrow> (string \<times> cache_file) list \<Rightarrow> run" where
  "start_run st file files =
     \<lparr>service = st, cacheFile = file, disk = map_of files, reports = []\<rparr>"


section \<open>The placeholder text\<close>

text \<open>
  Not part of the program: the text that \<open>links2tags\<close> is shown to return, used to state
  the lemmas about the two loops of the tag codec. Every match of the tag pattern is
  replaced, where it stands, by the marker of its index, counting from \<open>k\<close>.
\<close>

function placeholder :: "nat \<Rightarrow> string \<Rightarrow> string" where
  "placeholder k s =
     (case re_search_tag s of
        None \<Rightarrow> s
      | Some (p, m, r) \<Rightarrow> p @ marker k @ placeholder (k + 1) r)"
  by pat_completeness auto
termination
proof (relation "measure (\<lambda>(k, s). length s)")
  have len_close: "tag_close t = Some (b, r) \<Longrightarrow> length r < length t" for t b r
    by (induction t arbitrary: b r) (auto split: if_splits)
  have len_search: "re_search_tag t = Some (p, m, r) \<Longrightarrow> length r < length t" for t p m r
    by (induction t arbitrary: p m r) (auto split: if_splits option.splits dest!: len_close)
  fix k s x p y m r
  assume "re_search_tag s = Some x" "(p, y) = x" "(m, r) = y"
  then show "((k + 1, r), (k, s)) \<in> measure (\<lambda>(k, s). length s)"
    using len_search [of s p m r] by simp
qed simp

text \<open>
  Two notions for the same lemmas. A match of the tag pattern is an opening brace and a
  body that the lazy scan accepts whatever follows it. A text is closed off when no match
  starts inside it, whatever follows it.
\<close>

definition is_tag :: "string \<Rightarrow> bool" where
  "is_tag m \<longleftrightarrow> (\<exists>b. m = CHR ''{'' # b \<and> (\<forall>r. tag_close (b @ r) = Some (b, r)))"

definition closed_off :: "string \<Rightarrow> bool" where
  "closed_off a \<longleftrightarrow>
     (\<forall>x. re_search_tag (a @ x) = map_option (\<lambda>(p, m, r). (a @ p, m, r)) (re_search_tag x))"

section \<open>The short-text skip\<close>

lemma filter_dropWhile_neg:
  "filter (\<lambda>c. \<not> P c) (dropWhile P xs) = filter (\<lambda>c. \<not> P c) xs"
  by (induction xs) auto

lemma re_sub_class_filter: "re_sub_class s = filter (\<lambda>c. \<not> skip_class c) s"
  by (induction s rule: re_sub_class.induct) (auto simp: filter_dropWhile_neg)

text \<open>
  C6. A string that keeps fewer than five characters once every tag match and then every
  character of the class \<open>[\d\s()\[\].,_-]\<close> is removed is returned as it is, and the
  whole state is left as it was: no provider call, no cache lookup, no cache write, no
  counter moves.
\<close>

theorem short_text_skip:
  "length (filter (\<lambda>c. \<not> skip_class c) (re_sub_tags s)) < 5 \<Longrightarrow>
     translate cfg s st = (Inr s, st)"
  by (simp add: translate_def re_sub_class_filter)

theorem short_text_skip_witness:
  "length (filter (\<lambda>c. \<not> skip_class c) (re_sub_tags ''{@dice 1d6} (+2) ft.'')) < 5 \<and>
   translate (stub_config False counting_provider) ''{@dice 1d6} (+2) ft.'' fresh_state =
     (Inr ''{@dice 1d6} (+2) ft.'', fresh_state)"
proof -
  have short: "length (filter (\<lambda>c. \<not> skip_class c) (re_sub_tags ''{@dice 1d6} (+2) ft.'')) < 5"
    by code_simp
  show ?thesis
    using short short_text_skip [OF short] by simp
qed

section \<open>The retry loop\<close>

declare retry_loop.simps [simp del]

lemma retry_loop_done: "\<not> a < MAX_RETRIES \<Longrightarrow> retry_loop cfg t a st = (None, st)"
  by (simp add: retry_loop.simps)

lemma retry_loop_fail:
  assumes "a < MAX_RETRIES" "snd (provider cfg (providerCalls st) t) = None"
  shows "\<exists>st1. retry_loop cfg t a st = retry_loop cfg t (Suc a) st1 \<and>
           trace st1 = trace st @ attempt_events t a True \<and>
           providerCalls st1 = Suc (providerCalls st) \<and> service_frame st st1"
  using assms
  by (subst retry_loop.simps)
     (auto simp: call_provider_def sleep_def attempt_events_def service_frame_def Let_def
        split: prod.splits)

lemma retry_loop_success:
  assumes "a < MAX_RETRIES" "snd (provider cfg (providerCalls st) t) = Some r"
  shows "\<exists>st1. retry_loop cfg t a st = (Some r, st1) \<and>
           trace st1 = trace st @ attempt_events t a False \<and>
           providerCalls st1 = Suc (providerCalls st) \<and> service_frame st st1"
  using assms
  by (subst retry_loop.simps)
     (auto simp: call_provider_def sleep_def attempt_events_def service_frame_def Let_def
        split: prod.splits)

lemma service_frame_trans: "service_frame a b \<Longrightarrow> service_frame b c \<Longrightarrow> service_frame a c"
  by (simp add: service_frame_def)

lemma retry_loop_fail_prefix:
  assumes "\<forall>i<k. snd (provider cfg (providerCalls st + i) t) = None" "a + k \<le> MAX_RETRIES"
  shows "\<exists>st1. retry_loop cfg t a st = retry_loop cfg t (a + k) st1 \<and>
           trace st1 = trace st @ concat (map (\<lambda>i. attempt_events t i True) [a..<a + k]) \<and>
           providerCalls st1 = providerCalls st + k \<and> service_frame st st1"
  using assms
proof (induction k arbitrary: a st)
  case 0
  then show ?case by (auto simp: service_frame_def)
next
  case (Suc k)
  from Suc.prems have first: "snd (provider cfg (providerCalls st) t) = None"
    by (metis add.right_neutral zero_less_Suc)
  from Suc.prems have a: "a < MAX_RETRIES" by simp
  from retry_loop_fail [OF a first] obtain st1 where
    st1: "retry_loop cfg t a st = retry_loop cfg t (Suc a) st1"
      "trace st1 = trace st @ attempt_events t a True"
      "providerCalls st1 = Suc (providerCalls st)" "service_frame st st1"
    by blast
  have rest: "\<forall>i<k. snd (provider cfg (providerCalls st1 + i) t) = None"
    using Suc.prems(1) st1(3) by (metis Suc_less_eq add_Suc_shift)
  from Suc.IH [OF rest, of "Suc a"] Suc.prems(2) obtain st2 where
    st2: "retry_loop cfg t (Suc a) st1 = retry_loop cfg t (Suc a + k) st2"
      "trace st2 = trace st1 @ concat (map (\<lambda>i. attempt_events t i True) [Suc a..<Suc a + k])"
      "providerCalls st2 = providerCalls st1 + k" "service_frame st1 st2"
    by auto
  have "[a..<a + Suc k] = a # [Suc a..<Suc a + k]"
    by (simp add: upt_conv_Cons)
  then show ?case
    using st1 st2 service_frame_trans [OF st1(4) st2(4)] by (intro exI [of _ st2]) simp
qed

lemma upt_snoc_concat:
  "concat (map f [0..<k]) @ f k = concat (map f [0..<Suc k])"
  by simp

lemma retry_loop_first_success:
  assumes "\<forall>i<k. snd (provider cfg (providerCalls st + i) t) = None"
    and "snd (provider cfg (providerCalls st + k) t) = Some r" and "k < MAX_RETRIES"
  shows "\<exists>st1. retry_loop cfg t 0 st = (Some r, st1) \<and>
           trace st1 = trace st @ retry_events t (Suc k) False \<and>
           providerCalls st1 = providerCalls st + Suc k \<and> service_frame st st1"
proof -
  from retry_loop_fail_prefix [OF assms(1), of 0] assms(3) obtain st1 where
    st1: "retry_loop cfg t 0 st = retry_loop cfg t k st1"
      "trace st1 = trace st @ concat (map (\<lambda>i. attempt_events t i True) [0..<k])"
      "providerCalls st1 = providerCalls st + k" "service_frame st st1"
    by auto
  from retry_loop_success [OF assms(3), of cfg st1 t r] assms(2) st1(3) obtain st2 where
    st2: "retry_loop cfg t k st1 = (Some r, st2)"
      "trace st2 = trace st1 @ attempt_events t k False"
      "providerCalls st2 = Suc (providerCalls st1)" "service_frame st1 st2"
    by auto
  have "retry_events t (Suc k) False =
      concat (map (\<lambda>i. attempt_events t i True) [0..<k]) @ attempt_events t k False"
  proof -
    have "concat (map (\<lambda>i. attempt_events t i (i < k)) [0..<k]) =
        concat (map (\<lambda>i. attempt_events t i True) [0..<k])"
      by (rule arg_cong [where f = concat], rule map_cong) auto
    then show ?thesis by (simp add: retry_events_def)
  qed
  then show ?thesis
    using st1 st2 service_frame_trans [OF st1(4) st2(4)] by (intro exI [of _ st2]) simp
qed

lemma retry_loop_exhausted:
  assumes "\<forall>i<MAX_RETRIES. snd (provider cfg (providerCalls st + i) t) = None"
  shows "\<exists>st1. retry_loop cfg t 0 st = (None, st1) \<and>
           trace st1 = trace st @ retry_events t MAX_RETRIES True \<and>
           providerCalls st1 = providerCalls st + MAX_RETRIES \<and> service_frame st st1"
proof -
  from retry_loop_fail_prefix [OF assms, of 0] obtain st1 where
    st1: "retry_loop cfg t 0 st = retry_loop cfg t MAX_RETRIES st1"
      "trace st1 = trace st @ concat (map (\<lambda>i. attempt_events t i True) [0..<MAX_RETRIES])"
      "providerCalls st1 = providerCalls st + MAX_RETRIES" "service_frame st st1"
    by auto
  then show ?thesis
    by (intro exI [of _ st1]) (simp add: retry_loop_done retry_events_def)
qed

lemma retry_loop_cases:
  "(\<exists>n st1. 1 \<le> n \<and> n \<le> MAX_RETRIES \<and>
      (\<forall>i<n - 1. snd (provider cfg (providerCalls st + i) t) = None) \<and>
      retry_loop cfg t 0 st = (snd (provider cfg (providerCalls st + (n - 1)) t), st1) \<and>
      trace st1 = trace st @
        retry_events t n (snd (provider cfg (providerCalls st + (n - 1)) t) = None) \<and>
      providerCalls st1 = providerCalls st + n \<and> service_frame st st1)"
proof (cases "\<forall>i<MAX_RETRIES. snd (provider cfg (providerCalls st + i) t) = None")
  case True
  from retry_loop_exhausted [OF True] obtain st1 where
    "retry_loop cfg t 0 st = (None, st1)"
    "trace st1 = trace st @ retry_events t MAX_RETRIES True"
    "providerCalls st1 = providerCalls st + MAX_RETRIES" "service_frame st st1"
    by blast
  moreover have "snd (provider cfg (providerCalls st + (MAX_RETRIES - 1)) t) = None"
    using True by (simp add: MAX_RETRIES_def)
  ultimately show ?thesis
    using True by (intro exI [of _ MAX_RETRIES] exI [of _ st1]) (simp add: MAX_RETRIES_def)
next
  case False
  define Q where "Q i \<longleftrightarrow> snd (provider cfg (providerCalls st + i) t) \<noteq> None" for i
  from False obtain j where j: "j < MAX_RETRIES" "Q j" by (auto simp: Q_def)
  define k where "k = (LEAST i. Q i)"
  have Qk: "Q k" unfolding k_def using j(2) by (rule LeastI)
  have kj: "k \<le> j" unfolding k_def using j(2) by (rule Least_le)
  have before: "\<forall>i<k. snd (provider cfg (providerCalls st + i) t) = None"
    using not_less_Least [of _ Q] by (auto simp: k_def Q_def)
  from Qk obtain r where r: "snd (provider cfg (providerCalls st + k) t) = Some r"
    by (auto simp: Q_def)
  from kj j have k: "k < MAX_RETRIES" by simp
  from retry_loop_first_success [OF before r k] obtain st1 where
    "retry_loop cfg t 0 st = (Some r, st1)"
    "trace st1 = trace st @ retry_events t (Suc k) False"
    "providerCalls st1 = providerCalls st + Suc k" "service_frame st st1"
    by blast
  then show ?thesis
    using before r k by (intro exI [of _ "Suc k"] exI [of _ st1]) simp
qed

section \<open>The paths of translate\<close>

declare re_sub_tags.simps [simp del] finditer_tags.simps [simp del]

lemma translate_hit:
  assumes "long_enough s" "map_of (cacheData st) s = Some c"
  shows "translate cfg s st =
    (Inr c, st\<lparr>trace := trace st @ [CacheGet s], cachedCharCount := cachedCharCount st + length s\<rparr>)"
  using assms by (simp add: translate_def re_sub_class_filter long_enough_def cacheGet_def)

lemma translate_deadline:
  assumes "long_enough s" "map_of (cacheData st) s = None" "deadline_exceeded cfg st"
  shows "translate cfg s st = (Inl DeadlineExceeded, st\<lparr>trace := trace st @ [CacheGet s]\<rparr>)"
  using assms
  by (simp add: translate_def re_sub_class_filter long_enough_def cacheGet_def deadline_exceeded_def)

lemma translate_miss:
  assumes "long_enough s" "map_of (cacheData st) s = None" "\<not> deadline_exceeded cfg st"
  shows "translate cfg s st =
    (case retry_loop cfg (fst (links2tags s)) 0 (miss_state s st) of
       (None, st2) \<Rightarrow> (Inr s, st2)
     | (Some r, st2) \<Rightarrow>
         (Inr (tags2links r (snd (links2tags s))),
          cacheSet cfg s (tags2links r (snd (links2tags s))) st2))"
  using assms
  by (auto simp: translate_def re_sub_class_filter long_enough_def cacheGet_def
      deadline_exceeded_def miss_state_def Let_def split: prod.splits option.splits)

lemma miss_state_simps [simp]:
  "trace (miss_state s st) = trace st @ [CacheGet s]"
  "providerCalls (miss_state s st) = providerCalls st"
  "cacheData (miss_state s st) = cacheData st"
  "cacheDirty (miss_state s st) = cacheDirty st"
  "charCount (miss_state s st) = charCount st + length s"
  "cachedCharCount (miss_state s st) = cachedCharCount st"
  "now (miss_state s st) = now st"
  by (simp_all add: miss_state_def)

lemma cacheSet_simps [simp]:
  "providerCalls (cacheSet cfg k v st) = providerCalls st"
  "charCount (cacheSet cfg k v st) = charCount st"
  "cachedCharCount (cacheSet cfg k v st) = cachedCharCount st"
  "now (cacheSet cfg k v st) = now st"
  "trace (cacheSet cfg k v st) = trace st @ (if disableCacheSave cfg then [] else [CacheSet k v])"
  "cacheData (cacheSet cfg k v st) =
     (if disableCacheSave cfg then cacheData st else AList.update k v (cacheData st))"
  "cacheDirty (cacheSet cfg k v st) = (disableCacheSave cfg \<and> cacheDirty st \<or> \<not> disableCacheSave cfg)"
  by (simp_all add: cacheSet_def)

lemma translate_exhausted:
  assumes "long_enough s" "map_of (cacheData st) s = None" "\<not> deadline_exceeded cfg st"
    and "\<forall>i<MAX_RETRIES. snd (provider cfg (providerCalls st + i) (fst (links2tags s))) = None"
  shows "\<exists>st1. translate cfg s st = (Inr s, st1) \<and>
      trace st1 = trace st @ CacheGet s # retry_events (fst (links2tags s)) MAX_RETRIES True \<and>
      providerCalls st1 = providerCalls st + MAX_RETRIES \<and> service_frame (miss_state s st) st1"
proof -
  from retry_loop_exhausted [of cfg "miss_state s st" "fst (links2tags s)"] assms(4)
  obtain st1 where "retry_loop cfg (fst (links2tags s)) 0 (miss_state s st) = (None, st1)"
    "trace st1 = trace (miss_state s st) @ retry_events (fst (links2tags s)) MAX_RETRIES True"
    "providerCalls st1 = providerCalls (miss_state s st) + MAX_RETRIES"
    "service_frame (miss_state s st) st1"
    by auto
  then show ?thesis
    by (intro exI [of _ st1]) (simp add: translate_miss [OF assms(1-3)])
qed

lemma translate_first_success:
  assumes "long_enough s" "map_of (cacheData st) s = None" "\<not> deadline_exceeded cfg st"
    and "\<forall>i<k. snd (provider cfg (providerCalls st + i) (fst (links2tags s))) = None"
    and "snd (provider cfg (providerCalls st + k) (fst (links2tags s))) = Some r"
    and "k < MAX_RETRIES"
  shows "\<exists>st1. translate cfg s st =
        (Inr (tags2links r (snd (links2tags s))),
         cacheSet cfg s (tags2links r (snd (links2tags s))) st1) \<and>
      trace st1 = trace st @ CacheGet s # retry_events (fst (links2tags s)) (Suc k) False \<and>
      providerCalls st1 = providerCalls st + Suc k \<and> service_frame (miss_state s st) st1"
proof -
  from retry_loop_first_success [of k cfg "miss_state s st" "fst (links2tags s)" r] assms(4-6)
  obtain st1 where "retry_loop cfg (fst (links2tags s)) 0 (miss_state s st) = (Some r, st1)"
    "trace st1 = trace (miss_state s st) @ retry_events (fst (links2tags s)) (Suc k) False"
    "providerCalls st1 = providerCalls (miss_state s st) + Suc k"
    "service_frame (miss_state s st) st1"
    by auto
  then show ?thesis
    by (intro exI [of _ st1]) (simp add: translate_miss [OF assms(1-3)])
qed

lemma recorded_failures_append [simp]:
  "recorded_failures (xs @ ys) = recorded_failures xs + recorded_failures ys"
  by (simp add: recorded_failures_def)

lemma delays_in_append [simp]: "delays_in (xs @ ys) = delays_in xs @ delays_in ys"
  by (simp add: delays_in_def)

lemma recorded_failures_Cons [simp]:
  "recorded_failures [] = 0"
  "recorded_failures (e # tr) =
     (case e of ProviderError a \<Rightarrow> 1 | _ \<Rightarrow> 0) + recorded_failures tr"
  by (simp_all add: recorded_failures_def split: event.splits)

lemma delays_in_Cons [simp]:
  "delays_in [] = []"
  "delays_in (e # tr) = (case e of Sleep d \<Rightarrow> [d] | _ \<Rightarrow> []) @ delays_in tr"
  by (simp_all add: delays_in_def)

lemma retry_events_5_True:
  "recorded_failures (retry_events t 5 True) = 5"
  "delays_in (retry_events t 5 True) = [1, 2, 4, 8]"
  by (simp_all add: retry_events_def attempt_events_def recorded_failures_def delays_in_def
      BASE_DELAY_def eval_nat_numeral)

lemma retry_events_5_False:
  "recorded_failures (retry_events t 5 False) = 4"
  "delays_in (retry_events t 5 False) = [1, 2, 4, 8]"
  by (simp_all add: retry_events_def attempt_events_def recorded_failures_def delays_in_def
      BASE_DELAY_def eval_nat_numeral)

lemma translate_miss_cases:
  assumes "long_enough s" "map_of (cacheData st) s = None" "\<not> deadline_exceeded cfg st"
  shows "\<exists>n ex tail. 1 \<le> n \<and> n \<le> MAX_RETRIES \<and>
      providerCalls (snd (translate cfg s st)) = providerCalls st + n \<and>
      (tail = [] \<or> (\<exists>v. tail = [CacheSet s v])) \<and>
      trace (snd (translate cfg s st)) =
        trace st @ CacheGet s # retry_events (fst (links2tags s)) n ex @ tail"
proof -
  from retry_loop_cases [of cfg "miss_state s st" "fst (links2tags s)"]
  obtain n st1 where n: "1 \<le> n" "n \<le> MAX_RETRIES"
    and run: "retry_loop cfg (fst (links2tags s)) 0 (miss_state s st) =
       (snd (provider cfg (providerCalls (miss_state s st) + (n - 1)) (fst (links2tags s))), st1)"
    and tr: "trace st1 = trace (miss_state s st) @ retry_events (fst (links2tags s)) n
       (snd (provider cfg (providerCalls (miss_state s st) + (n - 1)) (fst (links2tags s))) = None)"
    and calls: "providerCalls st1 = providerCalls (miss_state s st) + n"
    by blast
  let ?r = "snd (provider cfg (providerCalls (miss_state s st) + (n - 1)) (fst (links2tags s)))"
  show ?thesis
  proof (cases ?r)
    case None
    then show ?thesis
      using n run tr calls
      by (intro exI [of _ n] exI [of _ True] exI [of _ "[]"])
         (simp add: translate_miss [OF assms])
  next
    case (Some r)
    then show ?thesis
      using n run tr calls
      by (intro exI [of _ n] exI [of _ False]
          exI [of _ "if disableCacheSave cfg then [] else
             [CacheSet s (tags2links r (snd (links2tags s)))]"])
         (simp add: translate_miss [OF assms])
  qed
qed

text \<open>
  C4. On a cache miss of a text that is not skipped, with the deadline not exceeded:
  the provider is called between one and five times, and the observations of the call are
  the cache lookup, then for each attempt the delay \<open>BASE_DELAY * 2 ^ (attempt - 1)\<close>
  (none before the first attempt), the provider call and the failure report if it raised,
  then at most the cache write. If the first four calls raise and the fifth answers \<open>r\<close>,
  the result is \<open>r\<close> with its tags restored, after five calls, four recorded failures and
  the delays 1, 2, 4, 8. If five calls raise, the result is the text itself, not an error,
  after five calls, five recorded failures and the same delays.
\<close>

theorem retry_backoff:
  assumes "long_enough s" and "map_of (cacheData st) s = None"
    and "\<not> deadline_exceeded cfg st"
  shows
    "(\<exists>n ex tail. 1 \<le> n \<and> n \<le> 5 \<and>
        providerCalls (snd (translate cfg s st)) = providerCalls st + n \<and>
        (tail = [] \<or> (\<exists>v. tail = [CacheSet s v])) \<and>
        trace (snd (translate cfg s st)) =
          trace st @ CacheGet s # retry_events (fst (links2tags s)) n ex @ tail) \<and>
     ((\<forall>i<4. snd (provider cfg (providerCalls st + i) (fst (links2tags s))) = None) \<and>
      snd (provider cfg (providerCalls st + 4) (fst (links2tags s))) = Some r \<longrightarrow>
        fst (translate cfg s st) = Inr (tags2links r (snd (links2tags s))) \<and>
        providerCalls (snd (translate cfg s st)) = providerCalls st + 5 \<and>
        recorded_failures (trace (snd (translate cfg s st))) = recorded_failures (trace st) + 4 \<and>
        delays_in (trace (snd (translate cfg s st))) = delays_in (trace st) @ [1, 2, 4, 8]) \<and>
     ((\<forall>i<5. snd (provider cfg (providerCalls st + i) (fst (links2tags s))) = None) \<longrightarrow>
        fst (translate cfg s st) = Inr s \<and>
        providerCalls (snd (translate cfg s st)) = providerCalls st + 5 \<and>
        recorded_failures (trace (snd (translate cfg s st))) = recorded_failures (trace st) + 5 \<and>
        delays_in (trace (snd (translate cfg s st))) = delays_in (trace st) @ [1, 2, 4, 8])"
proof (intro conjI impI)
  show "\<exists>n ex tail. 1 \<le> n \<and> n \<le> 5 \<and>
        providerCalls (snd (translate cfg s st)) = providerCalls st + n \<and>
        (tail = [] \<or> (\<exists>v. tail = [CacheSet s v])) \<and>
        trace (snd (translate cfg s st)) =
          trace st @ CacheGet s # retry_events (fst (links2tags s)) n ex @ tail"
    using translate_miss_cases [OF assms] by (simp add: MAX_RETRIES_def)
next
  assume a: "(\<forall>i<4. snd (provider cfg (providerCalls st + i) (fst (links2tags s))) = None) \<and>
    snd (provider cfg (providerCalls st + 4) (fst (links2tags s))) = Some r"
  from translate_first_success [OF assms, of 4 r] a obtain st1 where
    st1: "translate cfg s st =
        (Inr (tags2links r (snd (links2tags s))),
         cacheSet cfg s (tags2links r (snd (links2tags s))) st1)"
      "trace st1 = trace st @ CacheGet s # retry_events (fst (links2tags s)) 5 False"
      "providerCalls st1 = providerCalls st + 5"
    by (auto simp: MAX_RETRIES_def)
  show "fst (translate cfg s st) = Inr (tags2links r (snd (links2tags s)))"
    by (simp add: st1)
  show "providerCalls (snd (translate cfg s st)) = providerCalls st + 5"
    by (simp add: st1)
  show "recorded_failures (trace (snd (translate cfg s st))) = recorded_failures (trace st) + 4"
    by (simp add: st1 retry_events_5_False)
  show "delays_in (trace (snd (translate cfg s st))) = delays_in (trace st) @ [1, 2, 4, 8]"
    by (simp add: st1 retry_events_5_False)
next
  assume a: "\<forall>i<5. snd (provider cfg (providerCalls st + i) (fst (links2tags s))) = None"
  from translate_exhausted [OF assms] a obtain st1 where
    st1: "translate cfg s st = (Inr s, st1)"
      "trace st1 = trace st @ CacheGet s # retry_events (fst (links2tags s)) 5 True"
      "providerCalls st1 = providerCalls st + 5"
    by (auto simp: MAX_RETRIES_def)
  show "fst (translate cfg s st) = Inr s"
    by (simp add: st1)
  show "providerCalls (snd (translate cfg s st)) = providerCalls st + 5"
    by (simp add: st1)
  show "recorded_failures (trace (snd (translate cfg s st))) = recorded_failures (trace st) + 5"
    by (simp add: st1 retry_events_5_True)
  show "delays_in (trace (snd (translate cfg s st))) = delays_in (trace st) @ [1, 2, 4, 8]"
    by (simp add: st1 retry_events_5_True)
qed

theorem retry_backoff_witness:
  "long_enough ''Hello {x} world'' \<and>
   map_of (cacheData fresh_state) ''Hello {x} world'' = None \<and>
   \<not> deadline_exceeded (stub_config False flaky_provider) fresh_state \<and>
   fst (translate (stub_config False flaky_provider) ''Hello {x} world'' fresh_state) =
     Inr ''it: Hello {x} world'' \<and>
   recorded_failures
     (trace (snd (translate (stub_config False flaky_provider) ''Hello {x} world'' fresh_state))) = 4"
proof -
  let ?cfg = "stub_config False flaky_provider"
  let ?s = "''Hello {x} world''"
  have h1: "long_enough ?s" by code_simp
  have h2: "map_of (cacheData fresh_state) ?s = None" by code_simp
  have h3: "\<not> deadline_exceeded ?cfg fresh_state" by code_simp
  have p: "(\<forall>i<4. snd (provider ?cfg (providerCalls fresh_state + i) (fst (links2tags ?s))) = None) \<and>
      snd (provider ?cfg (providerCalls fresh_state + 4) (fst (links2tags ?s))) =
        Some (''it: '' @ fst (links2tags ?s))"
    by (simp add: stub_config_def flaky_provider_def fresh_state_def)
  have t: "tags2links (''it: '' @ fst (links2tags ?s)) (snd (links2tags ?s)) = ''it: Hello {x} world''"
    by code_simp
  have f: "recorded_failures (trace fresh_state) = 0" by code_simp
  from retry_backoff [OF h1 h2 h3, of "''it: '' @ fst (links2tags ?s)"] p t f
  show ?thesis using h1 h2 h3 by simp
qed

lemma translate_short: "\<not> long_enough s \<Longrightarrow> translate cfg s st = (Inr s, st)"
  by (simp add: translate_def re_sub_class_filter long_enough_def)

lemma retry_loop_keeps_service:
  "service_frame st (snd (retry_loop cfg t 0 st))"
  using retry_loop_cases [of cfg st t] by auto

text \<open>Facts about the stubs and about the text used in the examples.\<close>

lemma hello_facts:
  "long_enough ''Hello {x} world''"
  "map_of (cacheData fresh_state) ''Hello {x} world'' = None"
  "length ''Hello {x} world'' = 15"
  "fst (links2tags ''Hello {x} world'') = ''Hello (%0%) world''"
  "snd (links2tags ''Hello {x} world'') = [''{x}'']"
  by code_simp+

lemma hello_restored:
  "tags2links (''0: Hello (%0%) world'') [''{x}''] = ''0: Hello {x} world''"
  "tags2links (''1: Hello (%0%) world'') [''{x}''] = ''1: Hello {x} world''"
  by code_simp+

lemma stub_config_simps [simp]:
  "provider (stub_config nocache p) = p"
  "disableCacheSave (stub_config nocache p) = nocache"
  "\<not> deadline_exceeded (stub_config nocache p) st"
  by (simp_all add: stub_config_def deadline_exceeded_def)

lemma fresh_state_simps [simp]:
  "cacheData fresh_state = []" "cacheDirty fresh_state = False" "charCount fresh_state = 0"
  "cachedCharCount fresh_state = 0" "providerCalls fresh_state = 0" "trace fresh_state = []"
  by (simp_all add: fresh_state_def)

lemma counting_provider_first:
  assumes "map_of (cacheData st) ''Hello {x} world'' = None" "providerCalls st = n"
    "tags2links (string_of_nat n @ '': Hello (%0%) world'') [''{x}''] = r"
  shows "\<exists>st1. translate (stub_config nocache counting_provider) ''Hello {x} world'' st =
        (Inr r, cacheSet (stub_config nocache counting_provider) ''Hello {x} world'' r st1) \<and>
      providerCalls st1 = Suc n \<and> service_frame (miss_state ''Hello {x} world'' st) st1"
proof -
  let ?cfg = "stub_config nocache counting_provider"
  let ?s = "''Hello {x} world''"
  have intime: "\<not> deadline_exceeded ?cfg st" by simp
  have none: "\<forall>i<0. snd (provider ?cfg (providerCalls st + i) (fst (links2tags ?s))) = None"
    by simp
  have ans: "snd (provider ?cfg (providerCalls st + 0) (fst (links2tags ?s))) =
      Some (string_of_nat n @ '': Hello (%0%) world'')"
    by (simp add: counting_provider_def assms(2) hello_facts(4))
  have k: "0 < MAX_RETRIES" by (simp add: MAX_RETRIES_def)
  from translate_first_success [OF hello_facts(1) assms(1) intime none ans k] assms(2,3)
  show ?thesis by (auto simp: hello_facts(5))
qed

text \<open>
  C9, as amended. The provider character counter grows by the length of the text on every
  cache miss that passes the deadline check, before the first attempt and whether the
  attempts then succeed or all fail; it is unchanged on the short-text path, on a cache
  hit and when the deadline is exceeded.
\<close>

theorem char_count_on_miss:
  "charCount (snd (translate cfg s st)) =
     (if long_enough s \<and> map_of (cacheData st) s = None \<and> \<not> deadline_exceeded cfg st
      then charCount st + length s else charCount st)"
proof (cases "long_enough s")
  case False
  then show ?thesis by (simp add: translate_short)
next
  case long: True
  show ?thesis
  proof (cases "map_of (cacheData st) s")
    case (Some c)
    then show ?thesis by (simp add: translate_hit [OF long Some])
  next
    case None
    show ?thesis
    proof (cases "deadline_exceeded cfg st")
      case True
      then show ?thesis by (simp add: translate_deadline [OF long None True])
    next
      case False
      have "service_frame (miss_state s st)
          (snd (retry_loop cfg (fst (links2tags s)) 0 (miss_state s st)))"
        by (rule retry_loop_keeps_service)
      then show ?thesis
        using long None False
        by (auto simp: translate_miss [OF long None False] service_frame_def
            split: prod.splits option.splits)
    qed
  qed
qed

theorem char_count_on_miss_witness:
  "charCount (snd (translate (stub_config False flaky_provider) ''Hello {x} world'' fresh_state)) = 15"
  using char_count_on_miss [of "stub_config False flaky_provider" "''Hello {x} world''" fresh_state]
  by (simp add: hello_facts)

text \<open>
  C9 as stated fails: with a provider that raises on all five attempts the text comes
  back untranslated and the counter has grown by its fifteen characters.
\<close>

theorem char_count_failure_counterexample:
  "fst (translate (stub_config False failing_provider) ''Hello {x} world'' fresh_state) =
     Inr ''Hello {x} world'' \<and>
   providerCalls (snd (translate (stub_config False failing_provider) ''Hello {x} world'' fresh_state)) = 5 \<and>
   recorded_failures
     (trace (snd (translate (stub_config False failing_provider) ''Hello {x} world'' fresh_state))) = 5 \<and>
   charCount fresh_state = 0 \<and>
   charCount (snd (translate (stub_config False failing_provider) ''Hello {x} world'' fresh_state)) = 15"
proof -
  let ?cfg = "stub_config False failing_provider"
  let ?s = "''Hello {x} world''"
  have fail: "\<forall>i<MAX_RETRIES.
      snd (provider ?cfg (providerCalls fresh_state + i) (fst (links2tags ?s))) = None"
    by (simp add: failing_provider_def)
  have intime: "\<not> deadline_exceeded ?cfg fresh_state" by simp
  from translate_exhausted [OF hello_facts(1,2) intime fail] obtain st1 where
    st1: "translate ?cfg ?s fresh_state = (Inr ?s, st1)"
      "trace st1 = trace fresh_state @ CacheGet ?s # retry_events (fst (links2tags ?s)) MAX_RETRIES True"
      "providerCalls st1 = providerCalls fresh_state + MAX_RETRIES"
      "service_frame (miss_state ?s fresh_state) st1"
    by blast
  have "charCount st1 = 15"
    using st1(4) hello_facts(3) by (simp add: service_frame_def)
  moreover have "recorded_failures (trace st1) = 5"
    by (simp add: st1(2) MAX_RETRIES_def retry_events_5_True)
  moreover have "providerCalls st1 = 5"
    by (simp add: st1(3) MAX_RETRIES_def)
  ultimately show ?thesis
    by (simp add: st1(1))
qed

text \<open>
  C10. On the short-text path, on a cache hit, when the deadline is exceeded and when all
  five attempts raise, the cache mapping and the dirty flag are as before the call.
  After five failed attempts the text itself is returned and is still absent from the
  cache, so the next call for it, unless the deadline is exceeded then, calls the
  provider again.
\<close>

theorem failed_paths_keep_cache:
  assumes "\<not> long_enough s \<or> map_of (cacheData st) s \<noteq> None \<or> deadline_exceeded cfg st \<or>
     (\<forall>i<5. snd (provider cfg (providerCalls st + i) (fst (links2tags s))) = None)"
  shows "cacheData (snd (translate cfg s st)) = cacheData st \<and>
     cacheDirty (snd (translate cfg s st)) = cacheDirty st \<and>
     (long_enough s \<and> map_of (cacheData st) s = None \<and> \<not> deadline_exceeded cfg st \<longrightarrow>
        fst (translate cfg s st) = Inr s \<and>
        (\<forall>cfg'. \<not> deadline_exceeded cfg' (snd (translate cfg s st)) \<longrightarrow>
           providerCalls (snd (translate cfg s st)) <
             providerCalls (snd (translate cfg' s (snd (translate cfg s st))))))"
proof (cases "long_enough s \<and> map_of (cacheData st) s = None \<and> \<not> deadline_exceeded cfg st")
  case False
  then consider "\<not> long_enough s" | c where "long_enough s" "map_of (cacheData st) s = Some c"
    | "long_enough s" "map_of (cacheData st) s = None" "deadline_exceeded cfg st"
    by (cases "map_of (cacheData st) s") auto
  then show ?thesis
  proof cases
    case 1
    then show ?thesis by (simp add: translate_short)
  next
    case 2
    then show ?thesis by (simp add: translate_hit)
  next
    case 3
    then show ?thesis by (simp add: translate_deadline)
  qed
next
  case True
  then have long: "long_enough s" and miss: "map_of (cacheData st) s = None"
    and intime: "\<not> deadline_exceeded cfg st"
    by simp_all
  from assms True
  have fail: "\<forall>i<MAX_RETRIES. snd (provider cfg (providerCalls st + i) (fst (links2tags s))) = None"
    by (simp add: MAX_RETRIES_def)
  from translate_exhausted [OF long miss intime fail] obtain st1 where
    st1: "translate cfg s st = (Inr s, st1)" "service_frame (miss_state s st) st1"
    by blast
  have again: "providerCalls st1 < providerCalls (snd (translate cfg' s st1))"
    if "\<not> deadline_exceeded cfg' st1" for cfg'
  proof -
    have "map_of (cacheData st1) s = None"
      using st1(2) miss by (simp add: service_frame_def)
    from translate_miss_cases [OF long this that] show ?thesis by auto
  qed
  show ?thesis
    using st1 again by (simp add: service_frame_def)
qed

theorem failed_paths_keep_cache_witness:
  "cacheData (snd (translate (stub_config False failing_provider) ''Hello {x} world'' fresh_state)) = [] \<and>
   cacheDirty (snd (translate (stub_config False failing_provider) ''Hello {x} world'' fresh_state)) = False \<and>
   providerCalls (snd (translate (stub_config False failing_provider) ''Hello {x} world'' fresh_state))
     < providerCalls (snd (translate (stub_config False flaky_provider) ''Hello {x} world''
         (snd (translate (stub_config False failing_provider) ''Hello {x} world'' fresh_state))))"
proof -
  let ?cfg = "stub_config False failing_provider"
  let ?s = "''Hello {x} world''"
  have h: "\<not> long_enough ?s \<or> map_of (cacheData fresh_state) ?s \<noteq> None \<or>
     deadline_exceeded ?cfg fresh_state \<or>
     (\<forall>i<5. snd (provider ?cfg (providerCalls fresh_state + i) (fst (links2tags ?s))) = None)"
    by (simp add: failing_provider_def)
  from failed_paths_keep_cache [OF h] show ?thesis
    by (simp add: hello_facts)
qed

text \<open>
  C2, as amended. With cache writing enabled, for a text that is not skipped: when a call
  returns \<open>r\<close> from the cache or from an attempt that succeeded, the next call on the
  state it left returns \<open>r\<close> again as a cache hit: it only looks the text up and adds
  its length to the cache-hit counter, whatever the configuration and the provider of the
  second call are. (A skipped text is returned unchanged by every call and never reaches
  the cache; with cache writing disabled nothing is stored.)
\<close>

theorem cached_translation_is_reused:
  assumes "\<not> disableCacheSave cfg" and "long_enough s"
    and "translate cfg s st = (Inr r, st1)"
    and "map_of (cacheData st) s \<noteq> None \<or>
      (\<exists>i<5. snd (provider cfg (providerCalls st + i) (fst (links2tags s))) \<noteq> None)"
  shows "translate cfg' s st1 =
    (Inr r, st1\<lparr>trace := trace st1 @ [CacheGet s],
                cachedCharCount := cachedCharCount st1 + length s\<rparr>)"
proof -
  have "map_of (cacheData st1) s = Some r"
  proof (cases "map_of (cacheData st) s")
    case (Some c)
    then show ?thesis
      using assms(3) by (auto simp: translate_hit [OF assms(2) Some])
  next
    case None
    have intime: "\<not> deadline_exceeded cfg st"
      using assms(3) by (auto simp: translate_deadline [OF assms(2) None])
    from None assms(4) obtain j where
      j: "j < 5" "snd (provider cfg (providerCalls st + j) (fst (links2tags s))) \<noteq> None"
      by auto
    define Q where "Q i \<longleftrightarrow> snd (provider cfg (providerCalls st + i) (fst (links2tags s))) \<noteq> None" for i
    define k where "k = (LEAST i. Q i)"
    have Qj: "Q j" using j(2) by (simp add: Q_def)
    have Qk: "Q k" unfolding k_def using Qj by (rule LeastI)
    have kj: "k \<le> j" unfolding k_def using Qj by (rule Least_le)
    have before: "\<forall>i<k. snd (provider cfg (providerCalls st + i) (fst (links2tags s))) = None"
      using not_less_Least [of _ Q] by (auto simp: k_def Q_def)
    from Qk obtain t where t: "snd (provider cfg (providerCalls st + k) (fst (links2tags s))) = Some t"
      by (auto simp: Q_def)
    from kj j(1) have k: "k < MAX_RETRIES" by (simp add: MAX_RETRIES_def)
    from translate_first_success [OF assms(2) None intime before t k] obtain st2 where
      "translate cfg s st =
        (Inr (tags2links t (snd (links2tags s))),
         cacheSet cfg s (tags2links t (snd (links2tags s))) st2)"
      by blast
    with assms(1,3) show ?thesis
      by (auto simp: AList.update_conv')
  qed
  from translate_hit [OF assms(2) this] show ?thesis .
qed

theorem cached_translation_is_reused_witness:
  "fst (translate (stub_config False counting_provider) ''Hello {x} world'' fresh_state) =
     Inr ''0: Hello {x} world'' \<and>
   fst (translate (stub_config True failing_provider) ''Hello {x} world''
     (snd (translate (stub_config False counting_provider) ''Hello {x} world'' fresh_state))) =
     Inr ''0: Hello {x} world'' \<and>
   providerCalls (snd (translate (stub_config True failing_provider) ''Hello {x} world''
     (snd (translate (stub_config False counting_provider) ''Hello {x} world'' fresh_state)))) =
   providerCalls (snd (translate (stub_config False counting_provider) ''Hello {x} world'' fresh_state))"
proof -
  let ?cfg = "stub_config False counting_provider"
  let ?s = "''Hello {x} world''"
  have n0: "string_of_nat 0 = ''0''" by code_simp
  from counting_provider_first [of fresh_state 0 "''0: Hello {x} world''" False]
  obtain st1 where
    st1: "translate ?cfg ?s fresh_state = (Inr ''0: Hello {x} world'', cacheSet ?cfg ?s ''0: Hello {x} world'' st1)"
    using hello_facts(2) hello_restored(1) n0 by auto
  have h1: "\<not> disableCacheSave ?cfg" by simp
  have h4: "map_of (cacheData fresh_state) ?s \<noteq> None \<or>
      (\<exists>i<5. snd (provider ?cfg (providerCalls fresh_state + i) (fst (links2tags ?s))) \<noteq> None)"
    by (auto simp: counting_provider_def intro!: exI [of _ 0])
  from cached_translation_is_reused [OF h1 hello_facts(1) st1 h4, of "stub_config True failing_provider"]
  show ?thesis
    by (simp add: st1)
qed

text \<open>
  C2 as stated fails when cache writing is disabled: the first call succeeds and stores
  nothing, and the second call asks the provider again and returns its second answer.
\<close>

theorem nocache_retranslates_counterexample:
  "fst (translate (stub_config True counting_provider) ''Hello {x} world'' fresh_state) =
     Inr ''0: Hello {x} world'' \<and>
   cacheData (snd (translate (stub_config True counting_provider) ''Hello {x} world'' fresh_state)) =
     cacheData fresh_state \<and>
   fst (translate (stub_config True counting_provider) ''Hello {x} world''
       (snd (translate (stub_config True counting_provider) ''Hello {x} world'' fresh_state))) =
     Inr ''1: Hello {x} world'' \<and>
   providerCalls (snd (translate (stub_config True counting_provider) ''Hello {x} world''
       (snd (translate (stub_config True counting_provider) ''Hello {x} world'' fresh_state)))) = 2"
proof -
  let ?cfg = "stub_config True counting_provider"
  let ?s = "''Hello {x} world''"
  have n0: "string_of_nat 0 = ''0''" and n1: "string_of_nat 1 = ''1''" by code_simp+
  from counting_provider_first [of fresh_state 0 "''0: Hello {x} world''" True]
  obtain st1 where
    st1: "translate ?cfg ?s fresh_state = (Inr ''0: Hello {x} world'', cacheSet ?cfg ?s ''0: Hello {x} world'' st1)"
      "providerCalls st1 = Suc 0" "service_frame (miss_state ?s fresh_state) st1"
    using hello_facts(2) hello_restored(1) n0 by auto
  have same: "cacheSet ?cfg ?s ''0: Hello {x} world'' st1 = st1"
    by (simp add: cacheSet_def)
  have miss: "map_of (cacheData st1) ?s = None"
    using st1(3) by (simp add: service_frame_def)
  from counting_provider_first [of st1 1 "''1: Hello {x} world''" True]
  obtain st2 where
    st2: "translate ?cfg ?s st1 = (Inr ''1: Hello {x} world'', cacheSet ?cfg ?s ''1: Hello {x} world'' st2)"
      "providerCalls st2 = Suc 1"
    using miss st1(2) hello_restored(2) n1 by auto
  show ?thesis
    using st1(3) by (simp add: st1(1) same st2 service_frame_def)
qed

section \<open>The walker\<close>

declare translate_field.simps [simp del] translate_entry.simps [simp del]

lemma translate_data_keeps_strings:
  "translate_data cfg v st = (e, v', st') \<Longrightarrow> v' = JStr s \<longleftrightarrow> v = JStr s"
  by (cases v) (auto split: prod.splits)

lemma translate_field_type:
  assumes "translate_field cfg data ''type'' v st = (e, v', st')"
  shows "v' = JStr s \<longleftrightarrow> v = JStr s"
  using assms translate_data_keeps_strings [of cfg v st e v' st' s]
  by (cases v) (auto simp: translate_field.simps SEQUENCE_FIELDS_def split: prod.splits)

lemma items_gate_stable:
  assumes "k = ''type'' \<longrightarrow> (v' = JStr ''list'' \<longleftrightarrow> v = JStr ''list'')"
  shows "items_gate (seen @ (k, v') # rest) = items_gate (seen @ (k, v) # rest)"
  using assms by (auto simp: items_gate_def map_add_def split: option.splits)

lemma walk_fields_shape:
  "walk_fields cfg seen rest st = (e, out, st') \<Longrightarrow>
     \<exists>rest'. out = seen @ rest' \<and> map fst rest' = map fst rest"
proof (induction rest arbitrary: seen st)
  case Nil
  then show ?case by simp
next
  case (Cons kv rest)
  obtain k v where kv: "kv = (k, v)" by (cases kv)
  obtain e1 v1 st1 where step: "translate_field cfg (seen @ (k, v) # rest) k v st = (e1, v1, st1)"
    by (metis prod_cases3)
  show ?case
  proof (cases e1)
    case None
    with Cons.prems kv step have "walk_fields cfg (seen @ [(k, v1)]) rest st1 = (e, out, st')"
      by simp
    from Cons.IH [OF this] kv show ?thesis by auto
  next
    case (Some err)
    with Cons.prems kv step show ?thesis by auto
  qed
qed

lemma walk_fields_sequence_field:
  assumes "walk_fields cfg seen rest st = (None, out, st')"
    and "distinct (map fst (seen @ rest))" and "map_of rest k = Some (JList entries)"
    and "k \<in> set SEQUENCE_FIELDS"
  shows "if k = ''items'' \<and> items_gate (seen @ rest) then map_of out k = Some (JList entries)
     else \<exists>s1 s2 entries'. walk_entries cfg entries s1 = (None, entries', s2) \<and>
       map_of out k = Some (JList entries')"
  using assms(1-3)
proof (induction rest arbitrary: seen st)
  case Nil
  then show ?case by simp
next
  case (Cons kv rest)
  obtain k1 v where kv: "kv = (k1, v)" by (cases kv)
  obtain e1 v1 st1 where step: "translate_field cfg (seen @ (k1, v) # rest) k1 v st = (e1, v1, st1)"
    by (metis prod_cases3)
  from Cons.prems(1) kv step have e1: "e1 = None"
    by (cases e1) auto
  with Cons.prems(1) kv step
  have rest: "walk_fields cfg (seen @ [(k1, v1)]) rest st1 = (None, out, st')"
    by simp
  from walk_fields_shape [OF rest] obtain rest' where
    out: "out = (seen @ [(k1, v1)]) @ rest'" "map fst rest' = map fst rest"
    by blast
  show ?case
  proof (cases "k1 = k")
    case True
    with Cons.prems(3) kv have v: "v = JList entries" by simp
    from Cons.prems(2) kv True have "k \<notin> fst ` set seen"
      by auto
    then have "map_of seen k = None"
      by (simp add: map_of_eq_None_iff)
    then have look: "map_of out k = Some v1"
      using True by (simp add: out(1) map_add_def)
    show ?thesis
    proof (cases "k = ''items'' \<and> items_gate (seen @ kv # rest)")
      case gate: True
      with step True v kv assms(4) have "v1 = JList entries"
        by (simp add: translate_field.simps)
      with look gate show ?thesis by simp
    next
      case gate: False
      with step True v kv assms(4) e1 obtain entries' where
        "walk_entries cfg entries st = (None, entries', st1)" "v1 = JList entries'"
        by (auto simp: translate_field.simps split: prod.splits if_splits)
      with look gate show ?thesis by auto
    qed
  next
    case False
    with Cons.prems(3) kv have look: "map_of rest k = Some (JList entries)" by simp
    from Cons.prems(2) kv have dist: "distinct (map fst ((seen @ [(k1, v1)]) @ rest))" by simp
    have "k1 = ''type'' \<longrightarrow> (v1 = JStr ''list'' \<longleftrightarrow> v = JStr ''list'')"
      using step translate_field_type by blast
    from items_gate_stable [OF this]
    have "items_gate ((seen @ [(k1, v1)]) @ rest) = items_gate (seen @ kv # rest)"
      by (simp add: kv)
    with Cons.IH [OF rest dist look] show ?thesis by simp
  qed
qed

lemma translate_data_node:
  "translate_data cfg (JObj kvs) st = (None, JObj kvs', st') \<Longrightarrow>
     walk_fields cfg [] kvs st = (None, kvs', st')"
  by (auto split: prod.splits)

lemma counting_provider_hello:
  "\<exists>st1. translate (stub_config False counting_provider) ''Hello {x} world'' fresh_state =
     (Inr ''0: Hello {x} world'', st1)"
proof -
  have n0: "string_of_nat 0 = ''0''" by code_simp
  from counting_provider_first [of fresh_state 0 "''0: Hello {x} world''" False]
  show ?thesis
    using hello_facts(2) hello_restored(1) n0 by auto
qed

text \<open>
  C5, as amended. The body of the walker's loop over a mapping, at the field \<open>items\<close>
  holding a sequence: when the mapping's \<open>type\<close> is the string \<open>list\<close> the elements are
  processed by the loop over a sequence field; in every other case (\<open>type\<close> absent,
  or present and different from \<open>list\<close>) the field is passed over, the value and the state
  being left as they are. Accordingly, after a walk of a mapping node that ran to its end,
  \<open>items\<close> holds the result of that loop on its elements when \<open>type\<close> is \<open>list\<close>
  and holds what it held before otherwise.
\<close>

theorem items_field_gate:
  assumes "distinct (map fst kvs)" and "map_of kvs ''items'' = Some (JList entries)"
    and "translate_data cfg (JObj kvs) st = (None, JObj kvs', st')"
  shows "(\<forall>data s. translate_field cfg data ''items'' (JList entries) s =
       (if map_of data ''type'' = Some (JStr ''list'')
        then case walk_entries cfg entries s of (e, entries', s1) \<Rightarrow> (e, JList entries', s1)
        else (None, JList entries, s))) \<and>
     (map_of kvs ''type'' = Some (JStr ''list'') \<longrightarrow>
       (\<exists>s1 s2 entries'. walk_entries cfg entries s1 = (None, entries', s2) \<and>
          map_of kvs' ''items'' = Some (JList entries'))) \<and>
     (map_of kvs ''type'' \<noteq> Some (JStr ''list'') \<longrightarrow>
       map_of kvs' ''items'' = Some (JList entries))"
proof (intro conjI allI impI)
  fix data s
  show "translate_field cfg data ''items'' (JList entries) s =
       (if map_of data ''type'' = Some (JStr ''list'')
        then case walk_entries cfg entries s of (e, entries', s1) \<Rightarrow> (e, JList entries', s1)
        else (None, JList entries, s))"
    by (auto simp: translate_field.simps SEQUENCE_FIELDS_def items_gate_def)
next
  have items: "''items'' \<in> set SEQUENCE_FIELDS" by (simp add: SEQUENCE_FIELDS_def)
  note field = walk_fields_sequence_field [OF translate_data_node [OF assms(3)] _ assms(2) items]
  {
    assume "map_of kvs ''type'' = Some (JStr ''list'')"
    then have "\<not> items_gate ([] @ kvs)" by (simp add: items_gate_def)
    with field assms(1)
    show "\<exists>s1 s2 entries'. walk_entries cfg entries s1 = (None, entries', s2) \<and>
        map_of kvs' ''items'' = Some (JList entries')"
      by simp
  }
  {
    assume "map_of kvs ''type'' \<noteq> Some (JStr ''list'')"
    then have "items_gate ([] @ kvs)" by (auto simp: items_gate_def)
    with field assms(1) show "map_of kvs' ''items'' = Some (JList entries)"
      by simp
  }
qed

theorem items_field_gate_witness:
  "map_of [(''type'', JStr ''weapon''), (''items'', JList [JStr ''Hello {x} world''])] ''items'' =
     Some (JList [JStr ''Hello {x} world''])"
proof -
  let ?kvs = "[(''type'', JStr ''weapon''), (''items'', JList [JStr ''Hello {x} world''])]"
  have h1: "distinct (map fst ?kvs)" by simp
  have h2: "map_of ?kvs ''items'' = Some (JList [JStr ''Hello {x} world''])" by simp
  have h3: "translate_data (stub_config False counting_provider) (JObj ?kvs) fresh_state =
      (None, JObj ?kvs, fresh_state)"
    by (simp add: translate_field.simps SEQUENCE_FIELDS_def items_gate_def)
  from items_field_gate [OF h1 h2 h3] show ?thesis by simp
qed

text \<open>
  C5 as stated fails for a mapping without \<open>type\<close>: \<open>items\<close> is passed over and the state
  is untouched, although the loop over a sequence field would have translated its element.
\<close>

theorem items_without_type_counterexample:
  "map_of [(''items'', JList [JStr ''Hello {x} world''])] ''type'' = None \<and>
   translate_data (stub_config False counting_provider)
     (JObj [(''items'', JList [JStr ''Hello {x} world''])]) fresh_state =
     (None, JObj [(''items'', JList [JStr ''Hello {x} world''])], fresh_state) \<and>
   fst (snd (walk_entries (stub_config False counting_provider)
     [JStr ''Hello {x} world''] fresh_state)) = [JStr ''0: Hello {x} world'']"
proof -
  from counting_provider_hello obtain st1 where
    "translate (stub_config False counting_provider) ''Hello {x} world'' fresh_state =
       (Inr ''0: Hello {x} world'', st1)"
    by blast
  then show ?thesis
    by (simp add: translate_field.simps translate_entry.simps SEQUENCE_FIELDS_def items_gate_def)
qed

lemma translate_nested_for_each:
  "translate_nested cfg els st = for_each (string_step cfg) els st"
  by (induction cfg els st rule: translate_nested.induct)
     (simp_all add: string_step_def split: prod.splits sum.splits)

lemma walk_elements_for_each: "walk_elements cfg xs st = for_each (translate_data cfg) xs st"
  by (induction xs arbitrary: st) (simp_all split: prod.splits option.splits)

lemma walk_entries_for_each: "walk_entries cfg xs st = for_each (translate_entry cfg) xs st"
  by (induction xs arbitrary: st) (simp_all split: prod.splits option.splits)

lemma for_each_length: "for_each f xs st = (None, xs', st') \<Longrightarrow> length xs' = length xs"
  by (induction xs arbitrary: st xs') (auto split: prod.splits option.splits)

lemma for_each_nth:
  assumes "for_each f xs st = (None, xs', st')" and "i < length xs"
  shows "\<exists>s'. f (xs ! i) (snd (snd (for_each f (take i xs) st))) = (None, xs' ! i, s')"
  using assms
proof (induction xs arbitrary: st xs' i)
  case Nil
  then show ?case by simp
next
  case (Cons x xs)
  from Cons.prems(1) obtain x' st1 xs'' where
    step: "f x st = (None, x', st1)" and rest: "for_each f xs st1 = (None, xs'', st')"
    and xs': "xs' = x' # xs''"
    by (auto split: prod.splits option.splits)
  show ?case
  proof (cases i)
    case 0
    with step xs' show ?thesis by simp
  next
    case (Suc j)
    with Cons.prems(2) have j: "j < length xs" by simp
    from Cons.IH [OF rest j] obtain s' where
      "f (xs ! j) (snd (snd (for_each f (take j xs) st1))) = (None, xs'' ! j, s')"
      by blast
    then show ?thesis
      using Suc step xs' by (auto split: prod.splits)
  qed
qed

lemma translate_entry_passes:
  "translate_entry cfg (JList els) st =
     (case for_each (string_step cfg) els st of
        (Some e, els1, st1) \<Rightarrow> (Some e, JList els1, st1)
      | (None, els1, st1) \<Rightarrow>
          (case for_each (translate_data cfg) els1 st1 of
             (e, els2, st2) \<Rightarrow> (e, JList els2, st2)))"
  by (simp add: translate_entry.simps translate_nested_for_each walk_elements_for_each
      split: prod.splits option.splits)

text \<open>
  C7, as amended. The body of the walker's loop over a mapping, at a field named
  \<open>entries\<close>, \<open>items\<close>, \<open>rows\<close>, \<open>headerEntries\<close>, \<open>reasons\<close>, \<open>other\<close> or
  \<open>lifeTrinket\<close> that holds a sequence (at \<open>items\<close> only if the field is not passed
  over), runs \<open>translate_entry\<close> over the elements, in order. On an element that is itself
  a sequence, \<open>translate_entry\<close> makes two passes: the first replaces, in order, each
  string longer than two characters by its translation and leaves every other sub-element
  as it is; the second walks each sub-element of the result as a generic node. So when
  both passes run to their end, the sub-element at index \<open>i\<close> is: for a string longer
  than two characters, the result of \<open>translate\<close> on it in the state that the first pass
  has reached at index \<open>i\<close>; for a shorter string, \<open>None\<close>, a \<open>bool\<close> or a number,
  the sub-element itself; for a list or a mapping, the result of \<open>translate_data\<close> on it
  in the state that the second pass has reached at index \<open>i\<close>.
\<close>

theorem nested_sequence_elements:
  "(k \<in> set SEQUENCE_FIELDS \<and> \<not> (k = ''items'' \<and> items_gate data) \<longrightarrow>
      translate_field cfg data k (JList entries) st =
        (case for_each (translate_entry cfg) entries st of
           (e, entries', st1) \<Rightarrow> (e, JList entries', st1))) \<and>
   translate_entry cfg (JList els) st =
     (case for_each (string_step cfg) els st of
        (Some e, els1, st1) \<Rightarrow> (Some e, JList els1, st1)
      | (None, els1, st1) \<Rightarrow>
          (case for_each (translate_data cfg) els1 st1 of
             (e, els2, st2) \<Rightarrow> (e, JList els2, st2))) \<and>
   (translate_entry cfg (JList els) st = (None, entry', st') \<longrightarrow>
      (\<exists>els'. entry' = JList els' \<and> length els' = length els \<and>
         (\<forall>i<length els.
            els' ! i =
              (case els ! i of
                 JStr s \<Rightarrow>
                   if 2 < length s then
                     (case fst (translate cfg s
                            (snd (snd (for_each (string_step cfg) (take i els) st)))) of
                        Inr r \<Rightarrow> JStr r
                      | Inl e \<Rightarrow> JStr s)
                   else JStr s
               | JList ys \<Rightarrow>
                   fst (snd (translate_data cfg (JList ys)
                     (snd (snd (for_each (translate_data cfg)
                        (take i (fst (snd (for_each (string_step cfg) els st))))
                        (snd (snd (for_each (string_step cfg) els st))))))))
               | JObj kvs \<Rightarrow>
                   fst (snd (translate_data cfg (JObj kvs)
                     (snd (snd (for_each (translate_data cfg)
                        (take i (fst (snd (for_each (string_step cfg) els st))))
                        (snd (snd (for_each (string_step cfg) els st))))))))
               | other \<Rightarrow> other))))"
proof (intro conjI impI)
  assume "k \<in> set SEQUENCE_FIELDS \<and> \<not> (k = ''items'' \<and> items_gate data)"
  then show "translate_field cfg data k (JList entries) st =
      (case for_each (translate_entry cfg) entries st of
         (e, entries', st1) \<Rightarrow> (e, JList entries', st1))"
    by (auto simp: translate_field.simps walk_entries_for_each)
next
  show "translate_entry cfg (JList els) st =
     (case for_each (string_step cfg) els st of
        (Some e, els1, st1) \<Rightarrow> (Some e, JList els1, st1)
      | (None, els1, st1) \<Rightarrow>
          (case for_each (translate_data cfg) els1 st1 of
             (e, els2, st2) \<Rightarrow> (e, JList els2, st2)))"
    by (rule translate_entry_passes)
next
  assume ran: "translate_entry cfg (JList els) st = (None, entry', st')"
  then obtain els1 st1 els2 where
    first: "for_each (string_step cfg) els st = (None, els1, st1)"
    and second: "for_each (translate_data cfg) els1 st1 = (None, els2, st')"
    and entry': "entry' = JList els2"
    by (auto simp: translate_entry_passes split: prod.splits option.splits)
  have len1: "length els1 = length els" by (rule for_each_length [OF first])
  have len2: "length els2 = length els1" by (rule for_each_length [OF second])
  have elt: "els2 ! i =
      (case els ! i of
         JStr s \<Rightarrow>
           if 2 < length s then
             (case fst (translate cfg s
                    (snd (snd (for_each (string_step cfg) (take i els) st)))) of
                Inr r \<Rightarrow> JStr r
              | Inl e \<Rightarrow> JStr s)
           else JStr s
       | JList ys \<Rightarrow>
           fst (snd (translate_data cfg (JList ys)
             (snd (snd (for_each (translate_data cfg) (take i els1) st1)))))
       | JObj kvs \<Rightarrow>
           fst (snd (translate_data cfg (JObj kvs)
             (snd (snd (for_each (translate_data cfg) (take i els1) st1)))))
       | other \<Rightarrow> other)" if i: "i < length els" for i
  proof -
    from for_each_nth [OF first i] obtain sa where
      a: "string_step cfg (els ! i) (snd (snd (for_each (string_step cfg) (take i els) st))) =
        (None, els1 ! i, sa)"
      by blast
    from i len1 have "i < length els1" by simp
    from for_each_nth [OF second this] obtain sb where
      b: "translate_data cfg (els1 ! i)
          (snd (snd (for_each (translate_data cfg) (take i els1) st1))) = (None, els2 ! i, sb)"
      by blast
    show ?thesis
    proof (cases "els ! i")
      case (JStr s)
      with a have "els1 ! i =
          (if 2 < length s then
             (case fst (translate cfg s
                    (snd (snd (for_each (string_step cfg) (take i els) st)))) of
                Inr r \<Rightarrow> JStr r
              | Inl e \<Rightarrow> JStr s)
           else JStr s)"
        by (auto simp: string_step_def split: if_splits prod.splits sum.splits)
      moreover from this obtain s1 where "els1 ! i = JStr s1"
        by (auto split: if_splits sum.splits)
      with b have "els2 ! i = els1 ! i" by simp
      ultimately show ?thesis by (simp add: JStr)
    next
      case JNull
      with a have "els1 ! i = JNull" by (simp add: string_step_def)
      with b have "els2 ! i = JNull" by simp
      then show ?thesis by (simp add: JNull)
    next
      case (JBool v)
      with a have "els1 ! i = JBool v" by (simp add: string_step_def)
      with b have "els2 ! i = JBool v" by simp
      then show ?thesis by (simp add: JBool)
    next
      case (JNum v)
      with a have "els1 ! i = JNum v" by (simp add: string_step_def)
      with b have "els2 ! i = JNum v" by simp
      then show ?thesis by (simp add: JNum)
    next
      case (JList ys)
      with a have "els1 ! i = JList ys" by (simp add: string_step_def)
      with b have "translate_data cfg (JList ys)
          (snd (snd (for_each (translate_data cfg) (take i els1) st1))) = (None, els2 ! i, sb)"
        by simp
      then show ?thesis by (simp add: JList)
    next
      case (JObj kvs)
      with a have "els1 ! i = JObj kvs" by (simp add: string_step_def)
      with b have "translate_data cfg (JObj kvs)
          (snd (snd (for_each (translate_data cfg) (take i els1) st1))) = (None, els2 ! i, sb)"
        by simp
      then show ?thesis by (simp add: JObj)
    qed
  qed
  have e1: "fst (snd (for_each (string_step cfg) els st)) = els1"
    and e2: "snd (snd (for_each (string_step cfg) els st)) = st1"
    using first by simp_all
  have all: "\<forall>i<length els.
            els2 ! i =
              (case els ! i of
                 JStr s \<Rightarrow>
                   if 2 < length s then
                     (case fst (translate cfg s
                            (snd (snd (for_each (string_step cfg) (take i els) st)))) of
                        Inr r \<Rightarrow> JStr r
                      | Inl e \<Rightarrow> JStr s)
                   else JStr s
               | JList ys \<Rightarrow>
                   fst (snd (translate_data cfg (JList ys)
                     (snd (snd (for_each (translate_data cfg)
                        (take i (fst (snd (for_each (string_step cfg) els st))))
                        (snd (snd (for_each (string_step cfg) els st))))))))
               | JObj kvs \<Rightarrow>
                   fst (snd (translate_data cfg (JObj kvs)
                     (snd (snd (for_each (translate_data cfg)
                        (take i (fst (snd (for_each (string_step cfg) els st))))
                        (snd (snd (for_each (string_step cfg) els st))))))))
               | other \<Rightarrow> other)"
    unfolding e1 e2 using elt by blast
  show "\<exists>els'. entry' = JList els' \<and> length els' = length els \<and>
         (\<forall>i<length els.
            els' ! i =
              (case els ! i of
                 JStr s \<Rightarrow>
                   if 2 < length s then
                     (case fst (translate cfg s
                            (snd (snd (for_each (string_step cfg) (take i els) st)))) of
                        Inr r \<Rightarrow> JStr r
                      | Inl e \<Rightarrow> JStr s)
                   else JStr s
               | JList ys \<Rightarrow>
                   fst (snd (translate_data cfg (JList ys)
                     (snd (snd (for_each (translate_data cfg)
                        (take i (fst (snd (for_each (string_step cfg) els st))))
                        (snd (snd (for_each (string_step cfg) els st))))))))
               | JObj kvs \<Rightarrow>
                   fst (snd (translate_data cfg (JObj kvs)
                     (snd (snd (for_each (translate_data cfg)
                        (take i (fst (snd (for_each (string_step cfg) els st))))
                        (snd (snd (for_each (string_step cfg) els st))))))))
               | other \<Rightarrow> other))"
    apply (intro exI [of _ els2] conjI)
      apply (rule entry')
     apply (simp add: len1 len2)
    apply (rule all)
    done
qed

theorem nested_sequence_elements_witness:
  "fst (translate_entry (stub_config False counting_provider)
     (JList [JStr ''Hello {x} world'', JStr ''ab'', JNum 3]) fresh_state) = None \<and>
   fst (snd (translate_entry (stub_config False counting_provider)
     (JList [JStr ''Hello {x} world'', JStr ''ab'', JNum 3]) fresh_state)) =
     JList [JStr ''0: Hello {x} world'', JStr ''ab'', JNum 3] \<and>
   fst (snd (translate_field (stub_config False counting_provider) [] ''entries''
     (JList [JList [JStr ''Hello {x} world'', JStr ''ab'', JNum 3]]) fresh_state)) =
     JList [JList [JStr ''0: Hello {x} world'', JStr ''ab'', JNum 3]]"
proof -
  define cfg where "cfg = stub_config False counting_provider"
  define els where "els = [JStr ''Hello {x} world'', JStr ''ab'', JNum 3]"
  define res where "res = translate_entry cfg (JList els) fresh_state"
  from counting_provider_hello obtain st1 where
    t: "translate cfg ''Hello {x} world'' fresh_state = (Inr ''0: Hello {x} world'', st1)"
    unfolding cfg_def by blast
  note inst = nested_sequence_elements [of "''entries''" "[]" cfg "[JList els]" fresh_state
      els "fst (snd res)" "snd (snd res)"]
  have ok: "fst res = None"
    unfolding res_def els_def
    by (simp add: translate_entry_passes string_step_def t hello_facts(3))
  then have run: "translate_entry cfg (JList els) fresh_state = (None, fst (snd res), snd (snd res))"
    unfolding res_def by (metis prod.collapse)
  with inst obtain els' where shape: "fst (snd res) = JList els'" and len: "length els' = length els"
    and el: "\<forall>i<length els. els' ! i =
        (case els ! i of
           JStr s \<Rightarrow>
             if 2 < length s then
               (case fst (translate cfg s
                      (snd (snd (for_each (string_step cfg) (take i els) fresh_state)))) of
                  Inr r \<Rightarrow> JStr r
                | Inl e \<Rightarrow> JStr s)
             else JStr s
         | JList ys \<Rightarrow>
             fst (snd (translate_data cfg (JList ys)
               (snd (snd (for_each (translate_data cfg)
                  (take i (fst (snd (for_each (string_step cfg) els fresh_state))))
                  (snd (snd (for_each (string_step cfg) els fresh_state))))))))
         | JObj kvs \<Rightarrow>
             fst (snd (translate_data cfg (JObj kvs)
               (snd (snd (for_each (translate_data cfg)
                  (take i (fst (snd (for_each (string_step cfg) els fresh_state))))
                  (snd (snd (for_each (string_step cfg) els fresh_state))))))))
         | other \<Rightarrow> other)"
    by blast
  from len obtain a b c where abc: "els' = [a, b, c]"
    unfolding els_def by (auto simp: length_Suc_conv)
  from el [rule_format, of 0] have "a = JStr ''0: Hello {x} world''"
    unfolding els_def abc by (simp add: t)
  moreover from el [rule_format, of 1] have "b = JStr ''ab''"
    unfolding els_def abc by simp
  moreover from el [rule_format, of 2] have "c = JNum 3"
    unfolding els_def abc by simp
  ultimately have entry: "fst (snd res) = JList [JStr ''0: Hello {x} world'', JStr ''ab'', JNum 3]"
    using shape abc by simp
  from inst have "translate_field cfg [] ''entries'' (JList [JList els]) fresh_state =
      (case for_each (translate_entry cfg) [JList els] fresh_state of
         (e, entries', st1) \<Rightarrow> (e, JList entries', st1))"
    by (simp add: SEQUENCE_FIELDS_def)
  then have "fst (snd (translate_field cfg [] ''entries'' (JList [JList els]) fresh_state)) =
      JList [fst (snd res)]"
    by (simp add: run split: prod.splits)
  with ok entry show ?thesis
    unfolding res_def cfg_def els_def by simp
qed

text \<open>
  C7 as stated fails: a sub-element that is not a string is not always left untouched. A
  mapping inside the nested list is walked, and its \<open>entry\<close> is translated.
\<close>

theorem nested_mapping_counterexample:
  "fst (snd (translate_data (stub_config False counting_provider)
     (JObj [(''entries'', JList [JList [JObj [(''entry'', JStr ''Hello {x} world'')]]])])
     fresh_state)) =
   JObj [(''entries'', JList [JList [JObj [(''entry'', JStr ''0: Hello {x} world'')]]])]"
proof -
  from counting_provider_hello obtain st1 where
    "translate (stub_config False counting_provider) ''Hello {x} world'' fresh_state =
       (Inr ''0: Hello {x} world'', st1)"
    by blast
  then show ?thesis
    by (simp add: translate_field.simps translate_entry.simps SEQUENCE_FIELDS_def)
qed

section \<open>Closing the cache scope\<close>

lemma swp_differs: "file @ ''.swp'' \<noteq> file"
  by simp

text \<open>
  C8. \<open>__exit__\<close> returns normally in every case (it is a total function without an
  error result). If the cache is not dirty or cache writing is disabled, the disk and the
  service are as before. If the cache is dirty and cache writing is enabled, the whole
  mapping is written to the temporary file and the temporary file is renamed onto the
  cache file: without a fault the cache file then holds the mapping, the temporary file is
  gone and the dirty flag is cleared; when the rename fails the mapping sits in the
  temporary file; with any fault the cache file is as it was before, the dirty flag stays
  set and the failure is reported.
\<close>

theorem cache_close:
  "(\<not> (cacheDirty (service r) \<and> \<not> disableCacheSave cfg) \<longrightarrow>
      disk (exit_service cfg env r) = disk r \<and> service (exit_service cfg env r) = service r) \<and>
   (cacheDirty (service r) \<and> \<not> disableCacheSave cfg \<longrightarrow>
      (ioFault env (cacheFile r) = NoFault \<longrightarrow>
         disk (exit_service cfg env r) =
           ((disk r)(cacheFile r \<mapsto> StoredCache (cacheData (service r))))
             (cacheFile r @ ''.swp'' := None) \<and>
         disk (exit_service cfg env r) =
           snd (rename_file NoFault (cacheFile r @ ''.swp'') (cacheFile r)
             (snd (write_cache NoFault (cacheFile r @ ''.swp'') (cacheData (service r)) (disk r)))) \<and>
         \<not> cacheDirty (service (exit_service cfg env r)) \<and>
         cacheData (service (exit_service cfg env r)) = cacheData (service r) \<and>
         reports (exit_service cfg env r) = reports r @ [SavingCache (cacheFile r)]) \<and>
      (ioFault env (cacheFile r) = RenameFails \<longrightarrow>
         disk (exit_service cfg env r) =
           (disk r)(cacheFile r @ ''.swp'' \<mapsto> StoredCache (cacheData (service r)))) \<and>
      (ioFault env (cacheFile r) \<noteq> NoFault \<longrightarrow>
         disk (exit_service cfg env r) (cacheFile r) = disk r (cacheFile r) \<and>
         cacheDirty (service (exit_service cfg env r)) \<and>
         reports (exit_service cfg env r) =
           reports r @ [SavingCache (cacheFile r), SaveError (cacheFile r)]))"
proof (intro conjI impI)
  assume "\<not> (cacheDirty (service r) \<and> \<not> disableCacheSave cfg)"
  then show "disk (exit_service cfg env r) = disk r"
    and "service (exit_service cfg env r) = service r"
    by (auto simp: exit_service_def cacheSync_def)
next
  assume go: "cacheDirty (service r) \<and> \<not> disableCacheSave cfg"
  {
    assume ok: "ioFault env (cacheFile r) = NoFault"
    from go ok show "disk (exit_service cfg env r) =
        ((disk r)(cacheFile r \<mapsto> StoredCache (cacheData (service r))))
          (cacheFile r @ ''.swp'' := None)"
      by (auto simp: exit_service_def cacheSync_def write_cache_def rename_file_def Let_def fun_eq_iff)
    from go ok show "disk (exit_service cfg env r) =
        snd (rename_file NoFault (cacheFile r @ ''.swp'') (cacheFile r)
          (snd (write_cache NoFault (cacheFile r @ ''.swp'') (cacheData (service r)) (disk r))))"
      by (simp add: exit_service_def cacheSync_def write_cache_def rename_file_def Let_def)
    from go ok show "\<not> cacheDirty (service (exit_service cfg env r))"
      and "cacheData (service (exit_service cfg env r)) = cacheData (service r)"
      and "reports (exit_service cfg env r) = reports r @ [SavingCache (cacheFile r)]"
      by (simp_all add: exit_service_def cacheSync_def write_cache_def rename_file_def Let_def)
  }
  {
    assume "ioFault env (cacheFile r) = RenameFails"
    with go show "disk (exit_service cfg env r) =
        (disk r)(cacheFile r @ ''.swp'' \<mapsto> StoredCache (cacheData (service r)))"
      by (simp add: exit_service_def cacheSync_def write_cache_def rename_file_def Let_def)
  }
  {
    assume bad: "ioFault env (cacheFile r) \<noteq> NoFault"
    from go bad show "disk (exit_service cfg env r) (cacheFile r) = disk r (cacheFile r)"
      and "cacheDirty (service (exit_service cfg env r))"
      and "reports (exit_service cfg env r) =
        reports r @ [SavingCache (cacheFile r), SaveError (cacheFile r)]"
      by (cases "ioFault env (cacheFile r)";
          simp add: exit_service_def cacheSync_def write_cache_def rename_file_def Let_def)+
  }
qed

theorem cache_close_witness:
  "disk (exit_service (stub_config False failing_provider) (stub_env NoFault)
     (start_run (fresh_state\<lparr>cacheData := [(''Fire'', ''Fuoco'')], cacheDirty := True\<rparr>)
        ''translation/cache/it/spells.json'' []))
     ''translation/cache/it/spells.json'' = Some (StoredCache [(''Fire'', ''Fuoco'')])"
  using cache_close [of
      "start_run (fresh_state\<lparr>cacheData := [(''Fire'', ''Fuoco'')], cacheDirty := True\<rparr>)
        ''translation/cache/it/spells.json'' []"
      "stub_config False failing_provider" "stub_env NoFault"]
  by (simp add: start_run_def stub_env_def)

section \<open>The deadline and the guarded part of a file\<close>



section \<open>The tag round trip\<close>

declare placeholder.simps [simp del] string_of_nat.simps [simp del]

lemma tag_close_Some:
  "tag_close cs = Some (b, r) \<Longrightarrow> cs = b @ r \<and> (\<forall>r'. tag_close (b @ r') = Some (b, r'))"
proof (induction cs arbitrary: b r)
  case Nil
  then show ?case by simp
next
  case (Cons c cs)
  show ?case
  proof (cases "c = CHR ''}''")
    case True
    with Cons.prems show ?thesis by auto
  next
    case False
    with Cons.prems have nl: "c \<noteq> CHR 0x0A" by (auto split: if_splits)
    with Cons.prems False obtain b' where b': "tag_close cs = Some (b', r)" "b = c # b'"
      by auto
    from Cons.IH [OF b'(1)] False nl b'(2) show ?thesis by auto
  qed
qed

lemma re_search_tag_Some:
  "re_search_tag s = Some (p, m, r) \<Longrightarrow> s = p @ m @ r \<and> is_tag m"
proof (induction s arbitrary: p)
  case Nil
  then show ?case by simp
next
  case (Cons c cs)
  show ?case
  proof (cases "if c = CHR ''{'' then tag_close cs else None")
    case None
    with Cons.prems obtain p' where p': "re_search_tag cs = Some (p', m, r)" "p = c # p'"
      by auto
    from Cons.IH [OF p'(1)] p'(2) show ?thesis by simp
  next
    case (Some br)
    obtain b r' where br: "br = (b, r')" by (cases br)
    from Some br have c: "c = CHR ''{''" and close: "tag_close cs = Some (b, r')"
      by (auto split: if_splits)
    from Cons.prems Some br have "p = []" "m = c # b" "r = r'" by auto
    with tag_close_Some [OF close] c show ?thesis by (auto simp: is_tag_def)
  qed
qed

lemma tag_close_None_before_tag:
  assumes "tag_close (p @ m @ r) = None" "is_tag m"
  shows "tag_close (p @ x) = None"
  using assms(1)
proof (induction p)
  case Nil
  from assms(2) obtain b where b: "m = CHR ''{'' # b" "\<forall>r. tag_close (b @ r) = Some (b, r)"
    by (auto simp: is_tag_def)
  with Nil show ?case by simp
next
  case (Cons d p)
  then show ?case by (auto split: if_splits)
qed

lemma map_option_same: "map_option (\<lambda>a. a) x = x"
  by (cases x) simp_all

lemma closed_off_Nil [simp]: "closed_off []"
  by (simp add: closed_off_def option.map_id map_option_same)

lemma closed_off_append: "closed_off a \<Longrightarrow> closed_off b \<Longrightarrow> closed_off (a @ b)"
  by (auto simp: closed_off_def option.map_comp comp_def split_def)

lemma closed_off_no_brace: "CHR ''{'' \<notin> set a \<Longrightarrow> closed_off a"
  unfolding closed_off_def
proof (induction a)
  case Nil
  then show ?case by (simp add: option.map_id map_option_same)
next
  case (Cons c a)
  then show ?case
    by (auto simp: option.map_comp comp_def split_def)
qed

lemma closed_off_before_tag:
  "re_search_tag s = Some (p, m, r) \<Longrightarrow> closed_off p"
proof (induction s arbitrary: p)
  case Nil
  then show ?case by simp
next
  case (Cons c cs)
  show ?case
  proof (cases "if c = CHR ''{'' then tag_close cs else None")
    case (Some br)
    with Cons.prems have "p = []" by (auto split: prod.splits)
    then show ?thesis by simp
  next
    case None
    with Cons.prems obtain p' where p': "re_search_tag cs = Some (p', m, r)" "p = c # p'"
      by auto
    from re_search_tag_Some [OF p'(1)] have cs: "cs = p' @ m @ r" and tag: "is_tag m"
      by simp_all
    have off: "closed_off p'" by (rule Cons.IH [OF p'(1)])
    have "(if c = CHR ''{'' then tag_close (p' @ x) else None) = None" for x
      using None cs tag_close_None_before_tag [OF _ tag, of p' r x] by (auto split: if_splits)
    then show ?thesis
      using off by (simp add: closed_off_def p'(2) option.map_comp comp_def split_def)
  qed
qed

lemma str_replace1_at_match:
  "re_search_tag s = Some (p, m, r) \<Longrightarrow> str_replace1 s m new = p @ new @ r"
proof (induction s arbitrary: p)
  case Nil
  then show ?case by simp
next
  case (Cons c cs)
  show ?case
  proof (cases "if c = CHR ''{'' then tag_close cs else None")
    case (Some br)
    obtain b r' where br: "br = (b, r')" by (cases br)
    from Some br have close: "tag_close cs = Some (b, r')"
      by (auto split: if_splits)
    from Cons.prems Some br have "p = []" "m = c # b" "r = r'" by auto
    with tag_close_Some [OF close] show ?thesis by auto
  next
    case None
    with Cons.prems obtain p' where p': "re_search_tag cs = Some (p', m, r)" "p = c # p'"
      by auto
    from re_search_tag_Some [OF p'(1)] have tag: "is_tag m" by simp
    then obtain b where b: "m = CHR ''{'' # b" "\<forall>r. tag_close (b @ r) = Some (b, r)"
      by (auto simp: is_tag_def)
    have "\<not> prefix m (c # cs)"
    proof
      assume "prefix m (c # cs)"
      then obtain rest where "c # cs = m @ rest" by (auto simp: prefix_def)
      with b have "c = CHR ''{''" "tag_close cs = Some (b, rest)" by auto
      with None show False by simp
    qed
    with Cons.IH [OF p'(1)] p'(2) show ?thesis by simp
  qed
qed

lemma string_of_nat_digits: "c \<in> set (string_of_nat n) \<Longrightarrow> re_digit c"
proof (induction n rule: string_of_nat.induct)
  case (1 n)
  have digit: "re_digit (char_of (48 + d))" if "d < 10" for d :: nat
    using that by (simp add: re_digit_def of_char_of)
  show ?case
  proof (cases "n < 10")
    case True
    with "1.prems" have "c = char_of (48 + n)"
      by (subst (asm) string_of_nat.simps) simp
    with True digit show ?thesis by simp
  next
    case False
    with "1.prems" have "c \<in> set (string_of_nat (n div 10)) \<or> c = char_of (48 + n mod 10)"
      by (subst (asm) string_of_nat.simps) auto
    then show ?thesis
    proof
      assume "c \<in> set (string_of_nat (n div 10))"
      with "1.IH" False show ?thesis by simp
    next
      assume "c = char_of (48 + n mod 10)"
      with digit [of "n mod 10"] show ?thesis by simp
    qed
  qed
qed

lemma string_of_nat_no_paren: "CHR ''('' \<notin> set (string_of_nat n)"
  using string_of_nat_digits [of "CHR ''(''" n] by (auto simp: re_digit_def)

lemma string_of_nat_no_brace: "CHR ''{'' \<notin> set (string_of_nat n)"
  using string_of_nat_digits [of "CHR ''{''" n] by (auto simp: re_digit_def)

lemma marker_shape: "\<exists>rest. marker k = CHR ''('' # rest \<and> CHR ''('' \<notin> set rest"
  by (simp add: marker_def string_of_nat_no_paren)

lemma closed_off_marker: "closed_off (marker k)"
  by (rule closed_off_no_brace) (simp add: marker_def string_of_nat_no_brace)

lemma str_replace1_here: "str_replace1 (old @ post) old new = new @ post"
proof (cases "old @ post")
  case Nil
  then show ?thesis by simp
next
  case (Cons a list)
  have "prefix old (a # list)" by (simp add: Cons [symmetric])
  moreover have "drop (length old) (a # list) = post" by (simp add: Cons [symmetric])
  ultimately show ?thesis by (simp add: Cons)
qed

lemma str_replace1_first:
  assumes "\<And>i. i < length pre \<Longrightarrow> \<not> prefix old (drop i (pre @ old @ post))"
  shows "str_replace1 (pre @ old @ post) old new = pre @ new @ post"
  using assms
proof (induction pre)
  case Nil
  then show ?case by (simp add: str_replace1_here)
next
  case (Cons c pre)
  from Cons.prems [of 0] have "\<not> prefix old (c # pre @ old @ post)" by simp
  moreover have "str_replace1 (pre @ old @ post) old new = pre @ new @ post"
  proof (rule Cons.IH)
    fix i assume "i < length pre"
    with Cons.prems [of "Suc i"] show "\<not> prefix old (drop i (pre @ old @ post))" by simp
  qed
  ultimately show ?case by simp
qed

lemma marker_occurrence_inside:
  assumes "i < length pre" "prefix (marker k) (drop i (pre @ marker k @ post))"
  shows "sublist (marker k) pre"
proof -
  from marker_shape obtain rest where m: "marker k = CHR ''('' # rest" "CHR ''('' \<notin> set rest"
    by blast
  let ?u = "drop i pre"
  from assms(1) have u: "?u \<noteq> []" by simp
  from assms have "prefix (marker k) (?u @ marker k @ post)" by simp
  then have "prefix (marker k) ?u \<or> (\<exists>us. marker k = ?u @ us \<and> prefix us (marker k @ post))"
    by (simp only: prefix_append)
  then consider "prefix (marker k) ?u"
    | v where "marker k = ?u @ v" "prefix v (marker k @ post)" "v \<noteq> []"
  proof
    assume "prefix (marker k) ?u"
    then show ?thesis by (rule that(1))
  next
    assume "\<exists>us. marker k = ?u @ us \<and> prefix us (marker k @ post)"
    then obtain us where us: "marker k = ?u @ us" "prefix us (marker k @ post)" by blast
    show ?thesis
    proof (cases "us = []")
      case True
      with us(1) have "prefix (marker k) ?u" by simp
      then show ?thesis by (rule that(1))
    next
      case False
      with us show ?thesis by (rule that(2))
    qed
  qed
  then show ?thesis
  proof cases
    case 1
    then obtain w where "?u = marker k @ w" by (auto simp: prefix_def)
    then have "pre = take i pre @ marker k @ w"
      by (metis append_take_drop_id)
    then show ?thesis unfolding sublist_def by blast
  next
    case 2
    from 2(2,3) m(1) have "hd v = CHR ''(''" by (cases v) (auto simp: prefix_def)
    with 2(3) have "CHR ''('' \<in> set v" by (cases v) auto
    moreover from 2(1) u m(1) have "set v \<subseteq> set rest"
      by (cases ?u) auto
    ultimately show ?thesis using m(2) by blast
  qed
qed

lemma links2tags_loop_placeholder:
  "closed_off A \<Longrightarrow>
     links2tags_loop (finditer_tags S) k (A @ S) L = (A @ placeholder k S, L @ finditer_tags S)"
proof (induction S arbitrary: A k L rule: finditer_tags.induct)
  case (1 s)
  show ?case
  proof (cases "re_search_tag s")
    case None
    then show ?thesis by (simp add: finditer_tags.simps [of s] placeholder.simps [of k s])
  next
    case (Some x)
    obtain p m r where x: "x = (p, m, r)" by (cases x)
    with Some have found: "re_search_tag s = Some (p, m, r)" by simp
    have offp: "closed_off p" by (rule closed_off_before_tag [OF found])
    have off: "closed_off (A @ p @ marker k)"
      using "1.prems" offp closed_off_marker by (intro closed_off_append)
    from "1.prems" found have "re_search_tag (A @ s) = Some (A @ p, m, r)"
      by (simp add: closed_off_def)
    then have rep: "str_replace1 (A @ s) m (marker k) = (A @ p) @ marker k @ r"
      by (rule str_replace1_at_match)
    have "links2tags_loop (finditer_tags r) (k + 1) ((A @ p @ marker k) @ r) (L @ [m]) =
        ((A @ p @ marker k) @ placeholder (k + 1) r, (L @ [m]) @ finditer_tags r)"
      by (rule "1.IH" [OF found refl refl off])
    then show ?thesis
      using found rep by (simp add: finditer_tags.simps [of s] placeholder.simps [of k s])
  qed
qed

lemma tags2links_loop_placeholder:
  "(\<forall>i. k \<le> i \<and> i < k + length (finditer_tags S) \<longrightarrow> \<not> sublist (marker i) (B @ S)) \<Longrightarrow>
     tags2links_loop (enumerate k (finditer_tags S)) (B @ placeholder k S) = B @ S"
proof (induction S arbitrary: B k rule: finditer_tags.induct)
  case (1 s)
  show ?case
  proof (cases "re_search_tag s")
    case None
    then show ?thesis by (simp add: finditer_tags.simps [of s] placeholder.simps [of k s])
  next
    case (Some x)
    obtain p m r where x: "x = (p, m, r)" by (cases x)
    with Some have found: "re_search_tag s = Some (p, m, r)" by simp
    from re_search_tag_Some [OF found] have s: "s = p @ m @ r" by simp
    have tags: "finditer_tags s = m # finditer_tags r"
      using found by (simp add: finditer_tags.simps [of s])
    from "1.prems" [rule_format, of k] have nok: "\<not> sublist (marker k) (B @ s)"
      by (simp add: tags)
    have first: "str_replace1 ((B @ p) @ marker k @ placeholder (k + 1) r) (marker k) m =
        (B @ p) @ m @ placeholder (k + 1) r"
    proof (rule str_replace1_first)
      fix i
      assume i: "i < length (B @ p)"
      show "\<not> prefix (marker k) (drop i ((B @ p) @ marker k @ placeholder (k + 1) r))"
      proof
        assume "prefix (marker k) (drop i ((B @ p) @ marker k @ placeholder (k + 1) r))"
        from marker_occurrence_inside [OF i this] obtain ps ss where
          "B @ p = ps @ marker k @ ss"
          unfolding sublist_def by blast
        then have "B @ s = ps @ marker k @ (ss @ m @ r)"
          by (simp add: s)
        with nok show False unfolding sublist_def by blast
      qed
    qed
    have later: "\<forall>i. k + 1 \<le> i \<and> i < k + 1 + length (finditer_tags r) \<longrightarrow>
        \<not> sublist (marker i) ((B @ p @ m) @ r)"
    proof (intro allI impI)
      fix i
      assume "k + 1 \<le> i \<and> i < k + 1 + length (finditer_tags r)"
      then have "k \<le> i \<and> i < k + length (finditer_tags s)" by (simp add: tags)
      with "1.prems" have "\<not> sublist (marker i) (B @ s)" by blast
      then show "\<not> sublist (marker i) ((B @ p @ m) @ r)" by (simp add: s)
    qed
    have "tags2links_loop (enumerate k (finditer_tags s)) (B @ placeholder k s) =
        tags2links_loop (enumerate (k + 1) (finditer_tags r))
          ((B @ p @ m) @ placeholder (k + 1) r)"
      using first found by (simp add: tags placeholder.simps [of k s])
    also have "\<dots> = (B @ p @ m) @ r"
      by (rule "1.IH" [OF found refl refl later])
    also have "\<dots> = B @ s" by (simp add: s)
    finally show ?thesis .
  qed
qed

text \<open>
  C3, as amended. \<open>links2tags\<close> puts the marker \<open>(%i%)\<close> where the match of index \<open>i\<close>
  stood, and \<open>tags2links\<close> replaces the first occurrence of each marker by its tag. When
  the text itself holds none of the markers \<open>(%i%)\<close> for \<open>i\<close> below the number of its
  tags, the first occurrence of each marker is the one that \<open>links2tags\<close> put there, and
  restoring the tags of the extracted text, with nothing done to it in between, gives the
  text back.
\<close>

theorem tag_round_trip:
  assumes "\<forall>i<length (finditer_tags s). \<not> sublist (marker i) s"
  shows "tags2links (fst (links2tags s)) (snd (links2tags s)) = s"
  using links2tags_loop_placeholder [of "[]" s 0 "[]"]
    tags2links_loop_placeholder [of 0 s "[]"] assms
  by (simp add: links2tags_def tags2links_def)

theorem tag_round_trip_witness:
  "finditer_tags ''Hello {x} world'' = [''{x}''] \<and>
   \<not> sublist (marker 0) ''Hello {x} world'' \<and>
   tags2links (fst (links2tags ''Hello {x} world'')) (snd (links2tags ''Hello {x} world'')) =
     ''Hello {x} world''"
proof -
  have n: "finditer_tags ''Hello {x} world'' = [''{x}'']" by code_simp
  have m: "\<not> sublist (marker 0) ''Hello {x} world''" by code_simp
  have "\<forall>i<length (finditer_tags ''Hello {x} world''). \<not> sublist (marker i) ''Hello {x} world''"
    by (simp add: n m)
  with tag_round_trip [of "''Hello {x} world''"] n m show ?thesis by blast
qed

text \<open>
  C3 as stated fails: a text may hold a marker of its own. In \<open>(%0%) {a}\<close> the tag is
  replaced by \<open>(%0%)\<close>, and \<open>tags2links\<close> then puts the tag in the place of the first
  \<open>(%0%)\<close>, the one that was part of the text.
\<close>

theorem marker_in_text_counterexample:
  "links2tags ''(%0%) {a}'' = (''(%0%) (%0%)'', [''{a}'']) \<and>
   tags2links (fst (links2tags ''(%0%) {a}'')) (snd (links2tags ''(%0%) {a}'')) = ''{a} (%0%)'' \<and>
   tags2links (fst (links2tags ''(%0%) {a}'')) (snd (links2tags ''(%0%) {a}'')) \<noteq> ''(%0%) {a}''"
  by code_simp

end
